theory Spec2Isabelle
  imports Main
begin

section \<open>Token history\<close>

text \<open>
  A shallow embedding of \<^verbatim>\<open>common/ngram-map.cpp\<close>: the pattern-replay drafter
  \<^verbatim>\<open>common_ngram_simple_draft\<close>, the statistical cache \<^verbatim>\<open>common_ngram_map_draft\<close> and
  the feedback function \<^verbatim>\<open>common_ngram_map_accept\<close>.

  \<^verbatim>\<open>llama_token\<close> is a 32-bit integer that is only ever compared for equality;
  \<^verbatim>\<open>llama_tokens\<close> is a \<^verbatim>\<open>std::vector\<close> of them. Values of type \<^verbatim>\<open>size_t\<close> and
  \<^verbatim>\<open>uint16_t\<close> are natural numbers. Reading \<^verbatim>\<open>inp[i]\<close> with \<^verbatim>\<open>i >= inp.size()\<close> is
  undefined behaviour in the source; every function that reads the history returns
  an option, and \<open>None\<close> is the out-of-bounds read. The two other ways of not
  returning a result are \<open>None\<close> as well: the statistics loop that cannot end
  (see \<open>draft_at_match\<close>) and an index outside \<^verbatim>\<open>map.keys\<close> or \<^verbatim>\<open>values\<close> in the
  feedback function.
\<close>

type_synonym llama_token = int
type_synonym llama_tokens = "llama_token list"

definition tok_at :: "llama_tokens \<Rightarrow> nat \<Rightarrow> llama_token option" where
  "tok_at inp i = (if i < length inp then Some (inp ! i) else None)"

text \<open>
  \<^verbatim>\<open>size_t\<close> is unsigned and 64 bits wide: a subtraction below zero wraps around.
  Every subtraction of the source is written with \<open>size_t_sub\<close>. Once the guard of
  its function has passed, only \<^verbatim>\<open>cur_len - n - m - 1\<close> of the cache can go below
  zero (when \<^verbatim>\<open>n = 0\<close> and \<^verbatim>\<open>cur_len = m\<close>). The sums of indices are plain sums:
  they stay below \<open>2 ^ 64\<close> for every history that fits in memory.
\<close>

definition SIZE_MAX :: nat where
  "SIZE_MAX = 18446744073709551615"

definition size_t_sub :: "nat \<Rightarrow> nat \<Rightarrow> nat" where
  "size_t_sub a b = (if b \<le> a then a - b else SIZE_MAX + 1 - (b - a))"

text \<open>
  The comparison loops of both drafters:
  \<^verbatim>\<open>for (k = 0; k < pattern.size(); ++k) if (tokens[j + k] != pattern[k]) { match = false; break; }\<close>
  The loop stops at the first mismatch, so later positions are not read.
\<close>

fun window_eq :: "llama_tokens \<Rightarrow> nat \<Rightarrow> llama_tokens \<Rightarrow> bool option" where
  "window_eq inp j [] = Some True"
| "window_eq inp j (p # ps) =
     (case tok_at inp j of
        None \<Rightarrow> None
      | Some t \<Rightarrow> if t \<noteq> p then Some False else window_eq inp (Suc j) ps)"

text \<open>
  The backward search \<^verbatim>\<open>for (j = start; j > 0; --j)\<close> with \<^verbatim>\<open>match_pos = 0\<close> before it:
  the first position whose window matches ends the loop; \<open>0\<close> is "no match".
\<close>

fun search_back :: "llama_tokens \<Rightarrow> llama_tokens \<Rightarrow> nat \<Rightarrow> nat option" where
  "search_back inp pat 0 = Some 0"
| "search_back inp pat (Suc j) =
     (case window_eq inp (Suc j) pat of
        None \<Rightarrow> None
      | Some True \<Rightarrow> Some (Suc j)
      | Some False \<Rightarrow> search_back inp pat j)"

text \<open>
  The copy loop \<^verbatim>\<open>for (i = 0; i < count; ++i) draft.push_back(inp[start + i])\<close>.
\<close>

fun copy_tokens :: "llama_tokens \<Rightarrow> nat \<Rightarrow> nat \<Rightarrow> llama_tokens option" where
  "copy_tokens inp start 0 = Some []"
| "copy_tokens inp start (Suc count) =
     (case tok_at inp start of
        None \<Rightarrow> None
      | Some t \<Rightarrow>
          (case copy_tokens inp (Suc start) count of
             None \<Rightarrow> None
           | Some ts \<Rightarrow> Some (t # ts)))"

section \<open>The pattern-replay drafter\<close>

text \<open>
  Modelled from the spec: the state of \<^verbatim>\<open>common_ngram_simple_draft\<close>. Its structs
  are declared in \<^verbatim>\<open>ngram-map.h\<close>, which is not among the sources. The fields are
  those the function uses: it reads \<^verbatim>\<open>state.config.check_rate\<close>,
  \<^verbatim>\<open>state.config.size_ngram\<close> and \<^verbatim>\<open>state.config.size_mgram\<close> (each converted to
  \<^verbatim>\<open>size_t\<close>) and reads and writes \<^verbatim>\<open>state.idx_last_check\<close>; they are the
  \<open>check_rate\<close>, \<open>key_len\<close>, \<open>continuation_len\<close> and \<open>last_checked_position\<close> of the
  spec. The two fields that the cache has under the same name carry the prefix
  \<open>simple_\<close> here.
\<close>

record common_ngram_simple_config =
  size_ngram :: nat
  size_mgram :: nat
  simple_check_rate :: nat

record common_ngram_simple_state =
  config :: common_ngram_simple_config
  simple_idx_last_check :: nat

text \<open>
  The pattern is the last \<^verbatim>\<open>n_draft_min - 1\<close> tokens of the history and the sampled
  token: \<^verbatim>\<open>for (j = cur_len - n_draft_min + 1; j < cur_len; ++j) pattern.push_back(tokens[j])\<close>
  reads positions below \<^verbatim>\<open>cur_len\<close> only.
\<close>

definition simple_pattern :: "nat \<Rightarrow> llama_tokens \<Rightarrow> llama_token \<Rightarrow> llama_tokens" where
  "simple_pattern n_draft_min tokens sampled =
     drop (size_t_sub (length tokens) n_draft_min + 1) tokens @ [sampled]"

definition simple_match_pos :: "nat \<Rightarrow> llama_tokens \<Rightarrow> llama_token \<Rightarrow> nat option" where
  "simple_match_pos n_draft_min tokens sampled =
     search_back tokens (simple_pattern n_draft_min tokens sampled)
       (size_t_sub (size_t_sub (length tokens) n_draft_min) 1)"

definition common_ngram_simple_draft ::
  "common_ngram_simple_state \<Rightarrow> llama_tokens \<Rightarrow> llama_token
     \<Rightarrow> (common_ngram_simple_state \<times> llama_tokens) option" where
  "common_ngram_simple_draft state tokens sampled =
     (let cur_len = length tokens in
      if simple_idx_last_check state + simple_check_rate (config state) > cur_len
      then Some (state, [])
      else
        let n_draft_min = size_ngram (config state);
            n_draft_max = size_mgram (config state)
        in
        if cur_len \<le> n_draft_min + n_draft_max + 1 then Some (state, [])
        else
          let state' = state\<lparr>simple_idx_last_check := cur_len\<rparr> in
          (case simple_match_pos n_draft_min tokens sampled of
             None \<Rightarrow> None
           | Some match_pos \<Rightarrow>
               if match_pos = 0 then Some (state', [])
               else
                 let copy_max = min n_draft_max
                                  (size_t_sub cur_len (match_pos + n_draft_min)) in
                 if copy_max < n_draft_min then Some (state', [])
                 else
                   (case copy_tokens tokens (match_pos + n_draft_min) copy_max of
                      None \<Rightarrow> None
                    | Some draft_tokens \<Rightarrow> Some (state', draft_tokens))))"

section \<open>The statistical cache\<close>

text \<open>
  \<^verbatim>\<open>COMMON_NGRAM_MAX_VALUE_COUNT\<close> is defined in the source file.
\<close>

definition COMMON_NGRAM_MAX_VALUE_COUNT :: nat where
  "COMMON_NGRAM_MAX_VALUE_COUNT = 16380"

text \<open>
  Modelled from the spec: \<^verbatim>\<open>COMMON_NGRAM_MAX_VALUES\<close>, the capacity of the value array
  of a key, is defined in \<^verbatim>\<open>ngram-map.h\<close>, which is not among the sources. The spec
  gives the capacity as 4, and the source prints the slots \<^verbatim>\<open>values[0]\<close> to
  \<^verbatim>\<open>values[3]\<close>.
\<close>

definition COMMON_NGRAM_MAX_VALUES :: nat where
  "COMMON_NGRAM_MAX_VALUES = 4"

text \<open>
  Modelled from the spec: the structs of the cache are declared in \<^verbatim>\<open>ngram-map.h\<close>,
  which is not among the sources. The fields are those the source reads and
  writes; they are the ValueEntry, KeyEntry and Statistical Cache of the spec, with
  the three \<^verbatim>\<open>last_draft_\<close> fields for its \<open>pending_draft\<close>. \<^verbatim>\<open>value_num\<close> and
  \<^verbatim>\<open>key_num\<close> are \<^verbatim>\<open>uint16_t\<close> (the source casts to it), \<^verbatim>\<open>size_key\<close> and
  \<^verbatim>\<open>size_value\<close> are read into \<^verbatim>\<open>uint16_t\<close>, the indices are \<^verbatim>\<open>size_t\<close>;
  \<^verbatim>\<open>n_accepted\<close> is read through \<^verbatim>\<open>(int)\<close> and, as in the spec, holds the count that
  was stored. The fixed array \<^verbatim>\<open>values[COMMON_NGRAM_MAX_VALUES]\<close> is the list
  \<open>key_values\<close>, of that length.
\<close>

record common_ngram_map_value =
  value_idx :: nat
  value_num :: nat
  n_accepted :: int

record common_ngram_map_key =
  key_idx :: nat
  stat_idx :: nat
  key_num :: nat
  key_values :: "common_ngram_map_value list"

record common_ngram_map =
  size_key :: nat
  size_value :: nat
  key_only :: bool
  keys :: "common_ngram_map_key list"
  check_rate :: nat
  min_hits :: nat
  last_draft_created :: bool
  last_draft_key_idx :: nat
  last_draft_value_idx :: nat
  idx_last_check :: nat

text \<open>
  Both counters are bumped by
  \<^verbatim>\<open>(uint16_t) std::min((int) c + 1, (int) COMMON_NGRAM_MAX_VALUE_COUNT)\<close>.
  The sum is computed in \<^verbatim>\<open>int\<close>, where a \<^verbatim>\<open>uint16_t\<close> plus one cannot overflow,
  and the minimum is at most 16380, so the cast back to \<^verbatim>\<open>uint16_t\<close> keeps it.
\<close>

definition count_inc :: "nat \<Rightarrow> nat" where
  "count_inc c = min (c + 1) COMMON_NGRAM_MAX_VALUE_COUNT"

text \<open>
  The key of a lookup: the last \<^verbatim>\<open>n - 1\<close> tokens of the history and the sampled
  token. The loops over the key compare \<^verbatim>\<open>key_tokens[k]\<close> for \<^verbatim>\<open>k < n\<close>.
\<close>

definition map_key_tokens :: "nat \<Rightarrow> llama_tokens \<Rightarrow> llama_token \<Rightarrow> llama_tokens" where
  "map_key_tokens n inp sampled =
     take n (drop (size_t_sub (length inp) n + 1) inp @ [sampled])"

definition map_match_pos :: "nat \<Rightarrow> nat \<Rightarrow> llama_tokens \<Rightarrow> llama_token \<Rightarrow> nat option" where
  "map_match_pos n m inp sampled =
     search_back inp (map_key_tokens n inp sampled)
       (size_t_sub (size_t_sub (size_t_sub (length inp) n) m) 1)"

text \<open>
  The scan of \<^verbatim>\<open>map.keys\<close>: \<^verbatim>\<open>key_offset\<close> starts as \<^verbatim>\<open>map.keys.size()\<close> and becomes
  the index of the first entry whose tokens at \<^verbatim>\<open>key_idx\<close> equal the key.
\<close>

fun find_key :: "llama_tokens \<Rightarrow> llama_tokens \<Rightarrow> common_ngram_map_key list \<Rightarrow> nat \<Rightarrow> nat option" where
  "find_key inp key_tokens [] i = Some i"
| "find_key inp key_tokens (k # ks) i =
     (case window_eq inp (key_idx k) key_tokens of
        None \<Rightarrow> None
      | Some True \<Rightarrow> Some i
      | Some False \<Rightarrow> find_key inp key_tokens ks (Suc i))"

text \<open>
  Modelled from the spec: a new key's \<^verbatim>\<open>value_idx\<close> fields are not assigned by the
  source but left to the default member initialiser of \<^verbatim>\<open>ngram-map.h\<close>; by the spec
  all value slots of a new entry are empty (\<^verbatim>\<open>continuation_anchor = 0\<close>).
\<close>

definition new_value :: "nat \<Rightarrow> common_ngram_map_value" where
  "new_value m = \<lparr>value_idx = 0, value_num = 0, n_accepted = int m\<rparr>"

definition new_key :: "nat \<Rightarrow> nat \<Rightarrow> common_ngram_map_key" where
  "new_key match_pos m =
     \<lparr>key_idx = match_pos, stat_idx = 0, key_num = 0,
      key_values = replicate COMMON_NGRAM_MAX_VALUES (new_value m)\<rparr>"

text \<open>
  The comparison of two m-grams of the history:
  \<^verbatim>\<open>for (j = 0; j < m; ++j) if (inp[a + j] != inp[b + j]) { match = false; break; }\<close>
\<close>

fun mgram_eq :: "llama_tokens \<Rightarrow> nat \<Rightarrow> nat \<Rightarrow> nat \<Rightarrow> bool option" where
  "mgram_eq inp a b 0 = Some True"
| "mgram_eq inp a b (Suc c) =
     (case tok_at inp a of
        None \<Rightarrow> None
      | Some x \<Rightarrow>
          (case tok_at inp b of
             None \<Rightarrow> None
           | Some y \<Rightarrow> if x \<noteq> y then Some False else mgram_eq inp (Suc a) (Suc b) c))"

text \<open>
  The loop over the value slots for one occurrence of the key, whose m-gram starts
  at \<open>idx_begin_value_key\<close>. It returns the slots and \<open>idx_value\<close> (\<open>-1\<close>: none).
  An empty slot (\<^verbatim>\<open>value_idx == 0\<close>) is taken at once; an occupied slot is compared.
\<close>

function find_value ::
  "llama_tokens \<Rightarrow> nat \<Rightarrow> nat \<Rightarrow> common_ngram_map_value list \<Rightarrow> nat
     \<Rightarrow> (common_ngram_map_value list \<times> int) option" where
  "find_value inp m idx_begin_value_key vals v =
     (if v < COMMON_NGRAM_MAX_VALUES then
        (let idx_begin_value_v = value_idx (vals ! v) in
         if idx_begin_value_v = 0
         then Some (vals[v := (vals ! v)\<lparr>value_idx := idx_begin_value_key,
                                          value_num := 0,
                                          n_accepted := int m\<rparr>], int v)
         else
           (case mgram_eq inp idx_begin_value_key idx_begin_value_v m of
              None \<Rightarrow> None
            | Some True \<Rightarrow> Some (vals, int v)
            | Some False \<Rightarrow> find_value inp m idx_begin_value_key vals (Suc v)))
      else Some (vals, - 1))"
  by pat_completeness auto
termination
  by (relation "measure (\<lambda>(inp, m, b, vals, v). COMMON_NGRAM_MAX_VALUES - v)") auto

text \<open>
  The body of the statistics loop for a position \<open>i\<close> where the key begins:
  find the slot, then \<^verbatim>\<open>if (idx_value >= 0)\<close> bump its \<^verbatim>\<open>value_num\<close>.
\<close>

definition stat_occurrence ::
  "llama_tokens \<Rightarrow> nat \<Rightarrow> nat \<Rightarrow> nat \<Rightarrow> common_ngram_map_value list
     \<Rightarrow> common_ngram_map_value list option" where
  "stat_occurrence inp n m i vals =
     (case find_value inp m (i + n) vals 0 of
        None \<Rightarrow> None
      | Some (vals', idx_value) \<Rightarrow>
          if idx_value \<ge> 0
          then Some (vals'[nat idx_value :=
                 (vals' ! nat idx_value)\<lparr>value_num :=
                    count_inc (value_num (vals' ! nat idx_value))\<rparr>])
          else Some vals')"

text \<open>
  The statistics loop \<^verbatim>\<open>for (i = curr_key.stat_idx; i <= match_pos; ++i)\<close>.
\<close>

function stat_loop ::
  "llama_tokens \<Rightarrow> llama_tokens \<Rightarrow> nat \<Rightarrow> nat \<Rightarrow> nat \<Rightarrow> nat
     \<Rightarrow> common_ngram_map_value list \<Rightarrow> common_ngram_map_value list option" where
  "stat_loop inp key_tokens n m match_pos i vals =
     (if i \<le> match_pos then
        (case window_eq inp i key_tokens of
           None \<Rightarrow> None
         | Some False \<Rightarrow> stat_loop inp key_tokens n m match_pos (Suc i) vals
         | Some True \<Rightarrow>
             (case stat_occurrence inp n m i vals of
                None \<Rightarrow> None
              | Some vals' \<Rightarrow> stat_loop inp key_tokens n m match_pos (Suc i) vals'))
      else Some vals)"
  by pat_completeness auto
termination
  by (relation "measure (\<lambda>(inp, key_tokens, n, m, match_pos, i, vals). Suc match_pos - i)") auto

text \<open>
  The selection loops: \<open>select_max\<close> is the pair \<^verbatim>\<open>(max_occur, slot_max)\<close> after
  \<^verbatim>\<open>if (curr_occur > max_occur) { max_occur = curr_occur; slot_max = v; }\<close> over all
  slots, starting from \<^verbatim>\<open>(0, 0)\<close>; \<open>sum_others\<close> is \<^verbatim>\<open>sum_occur\<close>, the sum over the slots
  other than \<^verbatim>\<open>slot_max\<close>.
\<close>

definition select_max :: "common_ngram_map_value list \<Rightarrow> nat \<times> nat" where
  "select_max vals =
     fold (\<lambda>v (max_occur, slot_max).
             let curr_occur = value_num (vals ! v) in
             if curr_occur > max_occur then (curr_occur, v) else (max_occur, slot_max))
       [0..<COMMON_NGRAM_MAX_VALUES] (0, 0)"

definition sum_others :: "common_ngram_map_value list \<Rightarrow> nat \<Rightarrow> nat" where
  "sum_others vals slot_max =
     fold (\<lambda>v sum_occur.
             if v = slot_max then sum_occur else sum_occur + value_num (vals ! v))
       [0..<COMMON_NGRAM_MAX_VALUES] 0"

text \<open>
  The test \<^verbatim>\<open>if (sum_occur > 0 && max_occur < 3 * sum_occur) return;\<close> on the slots
  of the current key.
\<close>

definition gate_rejects :: "common_ngram_map_value list \<Rightarrow> bool" where
  "gate_rejects vals =
     (let (max_occur, slot_max) = select_max vals;
          sum_occur = sum_others vals slot_max
      in sum_occur > 0 \<and> max_occur < 3 * sum_occur)"

text \<open>
  The part of \<^verbatim>\<open>common_ngram_map_draft\<close> after a match was found at \<open>match_pos\<close>:
  resolve the key entry, count the hit, then the key-only branch or the statistics,
  the selection, the gate and the draft. With \<^verbatim>\<open>match_pos == SIZE_MAX\<close> (the wrapped
  start of the search) the condition \<^verbatim>\<open>i <= match_pos\<close> of the statistics loop holds
  for every \<^verbatim>\<open>size_t\<close>, so the loop does not end: no result, \<open>None\<close>.
\<close>

definition draft_at_match ::
  "common_ngram_map \<Rightarrow> llama_tokens \<Rightarrow> llama_tokens \<Rightarrow> nat
     \<Rightarrow> (common_ngram_map \<times> llama_tokens) option" where
  "draft_at_match mp inp key_tokens match_pos =
     (let n = size_key mp; m = size_value mp in
      case find_key inp key_tokens (keys mp) 0 of
        None \<Rightarrow> None
      | Some key_offset \<Rightarrow>
          let keys1 = (if key_offset = length (keys mp)
                       then keys mp @ [new_key match_pos m] else keys mp);
              curr_key = (keys1 ! key_offset)\<lparr>key_num :=
                            count_inc (key_num (keys1 ! key_offset))\<rparr>
          in
          if key_only mp then
            (let n_draft_tokens = min (int m) (n_accepted (key_values curr_key ! 0)) in
             case copy_tokens inp (match_pos + n) (nat n_draft_tokens) of
               None \<Rightarrow> None
             | Some draft \<Rightarrow>
                 Some (mp\<lparr>keys := keys1[key_offset := curr_key],
                           last_draft_created := False,
                           last_draft_key_idx := key_offset,
                           last_draft_value_idx := 0\<rparr>, draft))
          else if key_num curr_key < min_hits mp
          then Some (mp\<lparr>keys := keys1[key_offset := curr_key]\<rparr>, [])
          else if match_pos = SIZE_MAX then None
          else
            (case stat_loop inp key_tokens n m match_pos (stat_idx curr_key)
                    (key_values curr_key) of
               None \<Rightarrow> None
             | Some vals \<Rightarrow>
                 let curr_key' = curr_key\<lparr>key_values := vals, stat_idx := match_pos\<rparr>;
                     mp' = mp\<lparr>keys := keys1[key_offset := curr_key']\<rparr>
                 in
                 if gate_rejects vals then Some (mp', [])
                 else
                   (let slot_max = snd (select_max vals);
                        n_draft_tokens = min (int m) (n_accepted (vals ! slot_max))
                    in
                    case copy_tokens inp (match_pos + n) (nat n_draft_tokens) of
                      None \<Rightarrow> None
                    | Some draft \<Rightarrow>
                        Some (mp'\<lparr>last_draft_created := True,
                                   last_draft_key_idx := key_offset,
                                   last_draft_value_idx := slot_max\<rparr>, draft))))"

text \<open>
  \<^verbatim>\<open>common_ngram_map_draft\<close>: the reset of the last draft, the guard on the history
  length, the throttle, the key search, and then \<open>draft_at_match\<close>. The draft is the
  list of tokens pushed to \<^verbatim>\<open>draft\<close>.
\<close>

definition common_ngram_map_draft ::
  "common_ngram_map \<Rightarrow> llama_tokens \<Rightarrow> llama_token
     \<Rightarrow> (common_ngram_map \<times> llama_tokens) option" where
  "common_ngram_map_draft mp inp sampled =
     (let map0 = mp\<lparr>last_draft_created := False,
                     last_draft_key_idx := 0,
                     last_draft_value_idx := 0\<rparr>;
          cur_len = length inp;
          n = size_key mp;
          m = size_value mp
      in
      if cur_len < 2 * n + m then Some (map0, [])
      else if idx_last_check mp + check_rate mp > cur_len then Some (map0, [])
      else
        let map1 = map0\<lparr>idx_last_check := cur_len\<rparr> in
        (case map_match_pos n m inp sampled of
           None \<Rightarrow> None
         | Some match_pos \<Rightarrow>
             if match_pos = 0 then Some (map1, [])
             else draft_at_match map1 inp (map_key_tokens n inp sampled) match_pos))"

text \<open>
  \<^verbatim>\<open>common_ngram_map_accept\<close>. \<^verbatim>\<open>map.keys[key_idx]\<close> and \<^verbatim>\<open>values[val_idx]\<close> outside
  their ranges are undefined behaviour: \<open>None\<close>.
\<close>

definition common_ngram_map_accept :: "common_ngram_map \<Rightarrow> nat \<Rightarrow> common_ngram_map option" where
  "common_ngram_map_accept mp n_acc =
     (if \<not> last_draft_created mp then Some mp
      else
        let key_idx' = last_draft_key_idx mp;
            val_idx = last_draft_value_idx mp
        in
        if key_idx' < length (keys mp) \<and> val_idx < COMMON_NGRAM_MAX_VALUES
             \<and> val_idx < length (key_values (keys mp ! key_idx'))
        then
          (let curr_key = keys mp ! key_idx';
               curr_value = key_values curr_key ! val_idx
           in Some (mp\<lparr>keys := (keys mp)[key_idx' :=
                       curr_key\<lparr>key_values := (key_values curr_key)[val_idx :=
                          curr_value\<lparr>n_accepted := int n_acc\<rparr>]\<rparr>]\<rparr>))
        else None)"

text \<open>
  What it means for a pattern to stand in the history at position \<open>j\<close>: the
  \<open>length pat\<close> tokens from \<open>j\<close> on exist and are the pattern.
\<close>

definition occurs_at :: "llama_tokens \<Rightarrow> llama_tokens \<Rightarrow> nat \<Rightarrow> bool" where
  "occurs_at inp pat j = (take (length pat) (drop j inp) = pat)"

section \<open>Sequences of calls\<close>

text \<open>
  A caller makes draft calls and feedback calls in any order. \<open>run_calls\<close> threads the
  cache through such a sequence; an out-of-bounds read of any call ends it with
  \<open>None\<close>.
\<close>

datatype call = Draft llama_tokens llama_token | Accept nat

fun run_calls :: "common_ngram_map \<Rightarrow> call list \<Rightarrow> common_ngram_map option" where
  "run_calls mp [] = Some mp"
| "run_calls mp (Draft inp sampled # cs) =
     (case common_ngram_map_draft mp inp sampled of
        None \<Rightarrow> None
      | Some (mp', draft) \<Rightarrow> run_calls mp' cs)"
| "run_calls mp (Accept n_acc # cs) =
     (case common_ngram_map_accept mp n_acc of
        None \<Rightarrow> None
      | Some mp' \<Rightarrow> run_calls mp' cs)"

text \<open>
  The history is append-only: the history of each draft call is a prefix of the
  history of the next one. \<open>histories_grow h cs\<close> says so for the calls \<open>cs\<close> made
  after the history was \<open>h\<close>. A history is a \<^verbatim>\<open>std::vector\<close>, whose size is a
  \<^verbatim>\<open>size_t\<close>.
\<close>

fun histories_grow :: "llama_tokens \<Rightarrow> call list \<Rightarrow> bool" where
  "histories_grow h [] = True"
| "histories_grow h (Draft inp sampled # cs) =
     (length inp \<le> SIZE_MAX \<and> take (length h) inp = h \<and> histories_grow inp cs)"
| "histories_grow h (Accept n_acc # cs) = histories_grow h cs"

fun last_history :: "llama_tokens \<Rightarrow> call list \<Rightarrow> llama_tokens" where
  "last_history h [] = h"
| "last_history h (Draft inp sampled # cs) = last_history inp cs"
| "last_history h (Accept n_acc # cs) = last_history h cs"

text \<open>
  All counters of the cache are at most the cap.
\<close>

definition slots_capped :: "common_ngram_map_value list \<Rightarrow> bool" where
  "slots_capped vals = list_all (\<lambda>x. value_num x \<le> COMMON_NGRAM_MAX_VALUE_COUNT) vals"

definition counters_capped :: "common_ngram_map \<Rightarrow> bool" where
  "counters_capped mp =
     list_all (\<lambda>k. key_num k \<le> COMMON_NGRAM_MAX_VALUE_COUNT \<and> slots_capped (key_values k))
       (keys mp)"

text \<open>
  The anchors of the cache lie in a history of length \<open>len\<close>: every key entry has
  its \<open>n\<close> key tokens and every occupied slot its \<open>m\<close> continuation tokens below
  \<open>len\<close>, every key entry has its array of slots, and a recorded draft refers to
  an existing key entry and slot.
\<close>

definition slots_in_bounds :: "nat \<Rightarrow> nat \<Rightarrow> common_ngram_map_value list \<Rightarrow> bool" where
  "slots_in_bounds m len vals =
     (length vals = COMMON_NGRAM_MAX_VALUES
      \<and> list_all (\<lambda>x. value_idx x = 0 \<or> value_idx x + m \<le> len) vals)"

definition anchors_in_bounds :: "common_ngram_map \<Rightarrow> nat \<Rightarrow> bool" where
  "anchors_in_bounds mp len =
     (list_all (\<lambda>k. key_idx k + size_key mp \<le> len
                   \<and> slots_in_bounds (size_value mp) len (key_values k)) (keys mp)
      \<and> (\<not> last_draft_created mp
          \<or> last_draft_key_idx mp < length (keys mp)
            \<and> last_draft_value_idx mp < COMMON_NGRAM_MAX_VALUES))"

section \<open>Example inputs\<close>

text \<open>
  Concrete states on which the properties below are evaluated. \<open>ex_map\<close> is a
  cache with \<open>n = 1\<close>, \<open>m = 1\<close> and no key entry yet; \<open>ex_map_after\<close> is that cache
  after the draft call on the history \<open>[9, 1, 2, 3, 4]\<close> with the sampled token 1,
  \<open>ex_map_zero\<close> the same after a feedback of 0 accepted tokens, and
  \<open>ex_map_empty_draft\<close> the cache after the next draft call, on the history
  \<open>[9, 1, 2, 3, 4, 1, 2, 3, 4]\<close>. \<open>ex_map_full\<close> has its counters at the cap.
\<close>

definition ex_simple_state :: common_ngram_simple_state where
  "ex_simple_state =
     \<lparr>config = \<lparr>size_ngram = 2, size_mgram = 3, simple_check_rate = 1\<rparr>,
      simple_idx_last_check = 0\<rparr>"

definition ex_map :: common_ngram_map where
  "ex_map =
     \<lparr>size_key = 1, size_value = 1, key_only = False, keys = [], check_rate = 1,
      min_hits = 1, last_draft_created = False, last_draft_key_idx = 0,
      last_draft_value_idx = 0, idx_last_check = 0\<rparr>"

definition ex_key :: common_ngram_map_key where
  "ex_key =
     \<lparr>key_idx = 1, stat_idx = 1, key_num = 1,
      key_values = [\<lparr>value_idx = 2, value_num = 1, n_accepted = 1\<rparr>,
                    new_value 1, new_value 1, new_value 1]\<rparr>"

definition ex_slots :: "nat \<Rightarrow> nat \<Rightarrow> common_ngram_map_value list" where
  "ex_slots c0 c1 =
     [\<lparr>value_idx = 2, value_num = c0, n_accepted = 1\<rparr>,
      \<lparr>value_idx = 4, value_num = c1, n_accepted = 1\<rparr>,
      new_value 1, new_value 1]"

definition ex_map_after :: common_ngram_map where
  "ex_map_after =
     ex_map\<lparr>keys := [ex_key], last_draft_created := True, idx_last_check := 5\<rparr>"

definition ex_map_zero :: common_ngram_map where
  "ex_map_zero =
     ex_map_after\<lparr>keys := [ex_key\<lparr>key_values :=
        [\<lparr>value_idx = 2, value_num = 1, n_accepted = 0\<rparr>,
         new_value 1, new_value 1, new_value 1]\<rparr>]\<rparr>"

definition ex_map_empty_draft :: common_ngram_map where
  "ex_map_empty_draft =
     ex_map_after\<lparr>idx_last_check := 9,
        keys := [ex_key\<lparr>key_num := 2, stat_idx := 5, key_values :=
          [\<lparr>value_idx = 2, value_num = 3, n_accepted = 0\<rparr>,
           new_value 1, new_value 1, new_value 1]\<rparr>]\<rparr>"

definition ex_map_full :: common_ngram_map where
  "ex_map_full =
     ex_map\<lparr>keys := [ex_key\<lparr>key_num := 16380, key_values :=
        [\<lparr>value_idx = 2, value_num = 16380, n_accepted = 1\<rparr>,
         new_value 1, new_value 1, new_value 1]\<rparr>]\<rparr>"

section \<open>Evaluation\<close>

text \<open>
  The equations of the two index loops are unconditional; they are used for
  evaluation on concrete inputs only.
\<close>

declare find_value.simps [simp del] stat_loop.simps [simp del]

lemma search_back_unfold:
  "search_back inp pat j =
     (if j = 0 then Some 0
      else case window_eq inp j pat of
             None \<Rightarrow> None
           | Some True \<Rightarrow> Some j
           | Some False \<Rightarrow> search_back inp pat (j - 1))"
  by (cases j) (auto split: option.split bool.split)

lemma copy_tokens_unfold:
  "copy_tokens inp s c =
     (if c = 0 then Some []
      else case tok_at inp s of
             None \<Rightarrow> None
           | Some t \<Rightarrow> (case copy_tokens inp (s + 1) (c - 1) of
                         None \<Rightarrow> None
                       | Some ts \<Rightarrow> Some (t # ts)))"
  by (cases c) (auto split: option.split bool.split)

lemma mgram_eq_unfold:
  "mgram_eq inp a b c =
     (if c = 0 then Some True
      else case tok_at inp a of
             None \<Rightarrow> None
           | Some x \<Rightarrow> (case tok_at inp b of
                         None \<Rightarrow> None
                       | Some y \<Rightarrow> if x \<noteq> y then Some False
                                  else mgram_eq inp (a + 1) (b + 1) (c - 1)))"
  by (cases c) (auto split: option.split bool.split)

lemma slots_upt: "[0..<COMMON_NGRAM_MAX_VALUES] = [0, 1, 2, 3]"
  by (simp add: COMMON_NGRAM_MAX_VALUES_def upt_rec)

lemma slots_replicate: "replicate COMMON_NGRAM_MAX_VALUES x = [x, x, x, x]"
  by (simp add: COMMON_NGRAM_MAX_VALUES_def numeral_eq_Suc)

lemma slots_less: "(v < COMMON_NGRAM_MAX_VALUES) = (v < 4)"
  by (simp add: COMMON_NGRAM_MAX_VALUES_def)

lemmas ev = tok_at_def size_t_sub_def SIZE_MAX_def map_key_tokens_def map_match_pos_def
  new_key_def new_value_def COMMON_NGRAM_MAX_VALUE_COUNT_def count_inc_def
  stat_occurrence_def select_max_def sum_others_def gate_rejects_def draft_at_match_def
  common_ngram_map_draft_def common_ngram_map_accept_def simple_pattern_def
  simple_match_pos_def common_ngram_simple_draft_def occurs_at_def Let_def
  slots_upt slots_replicate slots_less
  search_back_unfold copy_tokens_unfold mgram_eq_unfold find_value.simps stat_loop.simps

section \<open>Reading the history\<close>

lemma window_eq_True_iff: "window_eq inp j pat = Some True \<longleftrightarrow> occurs_at inp pat j"
proof (induction pat arbitrary: j)
  case Nil
  then show ?case by (simp add: occurs_at_def)
next
  case (Cons p ps)
  show ?case
  proof (cases "j < length inp")
    case True
    then have d: "drop j inp = inp ! j # drop (Suc j) inp"
      by (simp add: Cons_nth_drop_Suc)
    show ?thesis using True Cons.IH [of "Suc j"]
      by (auto simp: tok_at_def occurs_at_def d)
  next
    case False
    then show ?thesis by (simp add: tok_at_def occurs_at_def)
  qed
qed

lemma window_eq_in_bounds:
  "j + length pat \<le> length inp \<Longrightarrow> window_eq inp j pat \<noteq> None"
  by (induction pat arbitrary: j) (auto simp: tok_at_def)

lemma window_eq_in_bounds_cases:
  assumes "j + length pat \<le> length inp \<or> pat = []"
  shows "window_eq inp j pat = Some (occurs_at inp pat j)"
proof -
  have "window_eq inp j pat \<noteq> None"
  proof (cases pat)
    case Nil
    then show ?thesis by simp
  next
    case (Cons a list)
    with assms have "j + length pat \<le> length inp" by simp
    then show ?thesis by (rule window_eq_in_bounds)
  qed
  then obtain b where b: "window_eq inp j pat = Some b" by auto
  then show ?thesis using window_eq_True_iff [of inp j pat] by (cases b) auto
qed

lemma search_back_in_bounds:
  "start + length pat \<le> length inp \<or> pat = [] \<Longrightarrow> search_back inp pat start \<noteq> None"
proof (induction start)
  case 0
  then show ?case by simp
next
  case (Suc j)
  then have "window_eq inp (Suc j) pat = Some (occurs_at inp pat (Suc j))"
    by (intro window_eq_in_bounds_cases) auto
  moreover have "search_back inp pat j \<noteq> None" using Suc by auto
  ultimately show ?case by (cases "occurs_at inp pat (Suc j)") auto
qed

lemma search_back_le: "search_back inp pat start = Some r \<Longrightarrow> r \<le> start"
  by (induction start) (auto split: option.splits bool.splits)



lemma copy_tokens_in_bounds:
  "start + count \<le> length inp \<Longrightarrow> copy_tokens inp start count = Some (take count (drop start inp))"
proof (induction count arbitrary: start)
  case 0
  then show ?case by simp
next
  case (Suc c)
  then have lt: "start < length inp" by simp
  then have d: "drop start inp = inp ! start # drop (Suc start) inp"
    by (simp add: Cons_nth_drop_Suc)
  from Suc have "copy_tokens inp (Suc start) c = Some (take c (drop (Suc start) inp))" by simp
  then show ?case using lt by (simp add: tok_at_def d)
qed

lemma mgram_eq_in_bounds:
  "a + c \<le> length inp \<Longrightarrow> b + c \<le> length inp \<Longrightarrow> mgram_eq inp a b c \<noteq> None"
  by (induction c arbitrary: a b) (auto simp: tok_at_def)

section \<open>The backward search\<close>

lemma simple_pattern_length:
  "n \<le> length tokens \<Longrightarrow> length (simple_pattern n tokens sampled) = max n 1"
  by (auto simp: simple_pattern_def size_t_sub_def)

lemma simple_match_pos_Some:
  assumes "n + m + 1 < length tokens"
  shows "\<exists>r. simple_match_pos n tokens sampled = Some r \<and> r \<le> length tokens - n - 1"
proof -
  have len: "length (simple_pattern n tokens sampled) = max n 1"
    using assms by (intro simple_pattern_length) simp
  have start: "size_t_sub (size_t_sub (length tokens) n) 1 = length tokens - n - 1"
    using assms by (auto simp: size_t_sub_def)
  have "search_back tokens (simple_pattern n tokens sampled) (length tokens - n - 1) \<noteq> None"
    using assms len by (intro search_back_in_bounds) auto
  then obtain r where r: "search_back tokens (simple_pattern n tokens sampled)
      (length tokens - n - 1) = Some r" by auto
  then have "r \<le> length tokens - n - 1" by (rule search_back_le)
  with r start show ?thesis by (simp add: simple_match_pos_def)
qed

lemma map_key_tokens_length:
  "n \<le> length inp \<Longrightarrow> length (map_key_tokens n inp sampled) = n"
  by (auto simp: map_key_tokens_def size_t_sub_def)

lemma map_match_pos_Some:
  assumes "2 * n + m \<le> length inp"
  shows "\<exists>r. map_match_pos n m inp sampled = Some r
           \<and> r \<le> size_t_sub (size_t_sub (size_t_sub (length inp) n) m) 1"
proof -
  let ?start = "size_t_sub (size_t_sub (size_t_sub (length inp) n) m) 1"
  have len: "length (map_key_tokens n inp sampled) = n"
    using assms by (intro map_key_tokens_length) simp
  have "?start + n \<le> length inp \<or> n = 0"
    using assms by (auto simp: size_t_sub_def)
  then have "?start + length (map_key_tokens n inp sampled) \<le> length inp
      \<or> map_key_tokens n inp sampled = []"
    using len by auto
  then have "search_back inp (map_key_tokens n inp sampled) ?start \<noteq> None"
    by (rule search_back_in_bounds)
  then obtain r where r: "search_back inp (map_key_tokens n inp sampled) ?start = Some r"
    by auto
  then have "r \<le> ?start" by (rule search_back_le)
  with r show ?thesis by (simp add: map_match_pos_def)
qed

lemma map_search_start:
  "2 * n + m \<le> length inp \<Longrightarrow> 1 \<le> n \<Longrightarrow>
     size_t_sub (size_t_sub (size_t_sub (length inp) n) m) 1 = length inp - n - m - 1"
  by (auto simp: size_t_sub_def)

section \<open>Results of the pattern-replay drafter\<close>

lemma simple_draft_found:
  assumes throttle: "simple_idx_last_check state + simple_check_rate (config state) \<le> length tokens"
    and guard: "size_ngram (config state) + size_mgram (config state) + 1 < length tokens"
    and found: "simple_match_pos (size_ngram (config state)) tokens sampled = Some match_pos"
    and pos: "match_pos \<noteq> 0"
  shows "common_ngram_simple_draft state tokens sampled =
     Some (state\<lparr>simple_idx_last_check := length tokens\<rparr>,
       let available = min (size_mgram (config state))
                         (length tokens - (match_pos + size_ngram (config state)))
       in if available < size_ngram (config state) then []
          else take available (drop (match_pos + size_ngram (config state)) tokens))"
proof -
  let ?n = "size_ngram (config state)" and ?m = "size_mgram (config state)"
  obtain r where "simple_match_pos ?n tokens sampled = Some r" "r \<le> length tokens - ?n - 1"
    using simple_match_pos_Some [OF guard] by blast
  with found have le: "match_pos \<le> length tokens - ?n - 1" by simp
  then have sub: "size_t_sub (length tokens) (match_pos + ?n) = length tokens - (match_pos + ?n)"
    using guard by (auto simp: size_t_sub_def)
  let ?a = "min ?m (length tokens - (match_pos + ?n))"
  have "match_pos + ?n + ?a \<le> length tokens" using le guard by simp
  then have copy: "copy_tokens tokens (match_pos + ?n) ?a
      = Some (take ?a (drop (match_pos + ?n) tokens))"
    by (rule copy_tokens_in_bounds)
  show ?thesis
    using throttle guard found pos copy
    by (simp add: common_ngram_simple_draft_def Let_def sub)
qed

lemma simple_draft_no_match:
  assumes throttle: "simple_idx_last_check state + simple_check_rate (config state) \<le> length tokens"
    and guard: "size_ngram (config state) + size_mgram (config state) + 1 < length tokens"
    and none: "simple_match_pos (size_ngram (config state)) tokens sampled = Some 0"
  shows "common_ngram_simple_draft state tokens sampled =
     Some (state\<lparr>simple_idx_last_check := length tokens\<rparr>, [])"
  using assms by (simp add: common_ngram_simple_draft_def Let_def)

lemma simple_draft_sets_cursor:
  assumes throttle: "simple_idx_last_check state + simple_check_rate (config state) \<le> length tokens"
    and guard: "size_ngram (config state) + size_mgram (config state) + 1 < length tokens"
  shows "\<exists>d. common_ngram_simple_draft state tokens sampled =
     Some (state\<lparr>simple_idx_last_check := length tokens\<rparr>, d)"
proof -
  obtain r where r: "simple_match_pos (size_ngram (config state)) tokens sampled = Some r"
    using simple_match_pos_Some [OF guard] by blast
  show ?thesis
  proof (cases "r = 0")
    case True
    with r simple_draft_no_match [OF throttle guard] show ?thesis by simp
  next
    case False
    with r simple_draft_found [OF throttle guard r] show ?thesis by simp
  qed
qed

section \<open>Frame of the cache lookup\<close>

lemma draft_at_match_frame:
  assumes "draft_at_match mp inp key_tokens match_pos = Some (mp', d)"
  shows "idx_last_check mp' = idx_last_check mp \<and> size_key mp' = size_key mp
       \<and> size_value mp' = size_value mp \<and> key_only mp' = key_only mp
       \<and> check_rate mp' = check_rate mp \<and> min_hits mp' = min_hits mp"
  using assms
  by (auto simp: draft_at_match_def Let_def split: option.splits if_splits)

lemma map_draft_rejected_early:
  assumes "length inp < 2 * size_key mp + size_value mp
         \<or> length inp < idx_last_check mp + check_rate mp"
  shows "common_ngram_map_draft mp inp sampled =
     Some (mp\<lparr>last_draft_created := False, last_draft_key_idx := 0,
              last_draft_value_idx := 0\<rparr>, [])"
  using assms by (auto simp: common_ngram_map_draft_def Let_def)

lemma map_draft_no_match:
  assumes "2 * size_key mp + size_value mp \<le> length inp"
    and "idx_last_check mp + check_rate mp \<le> length inp"
    and "map_match_pos (size_key mp) (size_value mp) inp sampled = Some 0"
  shows "common_ngram_map_draft mp inp sampled =
     Some (mp\<lparr>last_draft_created := False, last_draft_key_idx := 0,
              last_draft_value_idx := 0, idx_last_check := length inp\<rparr>, [])"
  using assms by (auto simp: common_ngram_map_draft_def Let_def)

lemma map_draft_cursor:
  assumes "2 * size_key mp + size_value mp \<le> length inp"
    and "idx_last_check mp + check_rate mp \<le> length inp"
    and "common_ngram_map_draft mp inp sampled = Some (mp', d)"
  shows "idx_last_check mp' = length inp"
  using assms
  by (auto simp: common_ngram_map_draft_def Let_def
      split: option.splits if_splits dest!: draft_at_match_frame)

section \<open>Guard, throttle, search and replay\<close>

text \<open>
  C8. A call of the cache's draft that fails the guard on the history length
  (\<open>len < 2 * n + m\<close>) or the throttle (\<open>len - idx_last_check < check_rate\<close>)
  returns an empty draft, and the cache it leaves is the cache it got with the
  last draft cleared: the throttle cursor and every key entry (its \<open>stat_idx\<close>,
  \<open>key_num\<close> and value slots) are unchanged.
\<close>

theorem map_draft_guard_throttle_frame:
  assumes "length inp < 2 * size_key mp + size_value mp
         \<or> int (length inp) - int (idx_last_check mp) < int (check_rate mp)"
  shows "common_ngram_map_draft mp inp sampled =
     Some (mp\<lparr>last_draft_created := False, last_draft_key_idx := 0,
              last_draft_value_idx := 0\<rparr>, [])"
proof -
  from assms have "length inp < 2 * size_key mp + size_value mp
         \<or> length inp < idx_last_check mp + check_rate mp"
    by auto
  then show ?thesis by (rule map_draft_rejected_early)
qed

theorem map_draft_guard_throttle_frame_witness:
  "int (length [9, 1, 2, 3, 4 :: int]) - int (idx_last_check (ex_map\<lparr>idx_last_check := 5\<rparr>))
     < int (check_rate (ex_map\<lparr>idx_last_check := 5\<rparr>))
   \<and> common_ngram_map_draft (ex_map\<lparr>idx_last_check := 5, last_draft_created := True\<rparr>)
        [9, 1, 2, 3, 4] 1
     = Some (ex_map\<lparr>idx_last_check := 5\<rparr>, [])
   \<and> common_ngram_map_draft ex_map [1, 2] 2 = Some (ex_map, [])"
proof -
  have h1: "length [9, 1, 2, 3, 4 :: int]
        < 2 * size_key (ex_map\<lparr>idx_last_check := 5, last_draft_created := True\<rparr>)
          + size_value (ex_map\<lparr>idx_last_check := 5, last_draft_created := True\<rparr>)
      \<or> int (length [9, 1, 2, 3, 4 :: int])
          - int (idx_last_check (ex_map\<lparr>idx_last_check := 5, last_draft_created := True\<rparr>))
        < int (check_rate (ex_map\<lparr>idx_last_check := 5, last_draft_created := True\<rparr>))"
    by (simp add: ex_map_def)
  have h2: "length [1, 2 :: int] < 2 * size_key ex_map + size_value ex_map
      \<or> int (length [1, 2 :: int]) - int (idx_last_check ex_map) < int (check_rate ex_map)"
    by (simp add: ex_map_def)
  show ?thesis
    using map_draft_guard_throttle_frame [OF h1, of 1]
      map_draft_guard_throttle_frame [OF h2, of 2]
    by (simp add: ex_map_def)
qed

text \<open>
  C5. When the pattern-replay drafter (throttle and precondition passed) finds a
  match at \<open>match_pos\<close>, it computes
  \<open>available = min continuation_len (len - (match_pos + key_len))\<close>; if
  \<open>available < key_len\<close> the draft is empty, and otherwise the draft is exactly the
  \<open>available\<close> consecutive tokens of the history from position
  \<open>match_pos + key_len\<close> on.
\<close>

theorem simple_draft_available_tokens:
  assumes "simple_idx_last_check state + simple_check_rate (config state) \<le> length tokens"
    and "size_ngram (config state) + size_mgram (config state) + 1 < length tokens"
    and "simple_match_pos (size_ngram (config state)) tokens sampled = Some match_pos"
    and "match_pos \<noteq> 0"
    and "available = min (size_mgram (config state))
                       (length tokens - (match_pos + size_ngram (config state)))"
  shows "\<exists>st draft. common_ngram_simple_draft state tokens sampled = Some (st, draft)
     \<and> (available < size_ngram (config state) \<longrightarrow> draft = [])
     \<and> (\<not> available < size_ngram (config state) \<longrightarrow>
          length draft = available
          \<and> draft = take available (drop (match_pos + size_ngram (config state)) tokens)
          \<and> (\<forall>j < available.
                 draft ! j = tokens ! (match_pos + size_ngram (config state) + j)))"
proof -
  let ?n = "size_ngram (config state)"
  obtain r where "simple_match_pos ?n tokens sampled = Some r" "r \<le> length tokens - ?n - 1"
    using simple_match_pos_Some [OF assms(2)] by blast
  with assms(3) have le: "match_pos + ?n + available \<le> length tokens"
    using assms(2,5) by simp
  then have len: "length (take available (drop (match_pos + ?n) tokens)) = available"
    by simp
  have nth: "\<forall>j < available. take available (drop (match_pos + ?n) tokens) ! j
      = tokens ! (match_pos + ?n + j)"
    using le by simp
  show ?thesis
    using simple_draft_found [OF assms(1-4)] len nth
    by (simp add: Let_def assms(5) [symmetric])
qed

theorem simple_draft_available_tokens_witness:
  "simple_match_pos 2 [9, 1, 2, 3, 4, 5, 1] 2 = Some 1
   \<and> min (3::nat) (length [9, 1, 2, 3, 4, 5, 1 :: int] - (1 + 2)) = 3
   \<and> common_ngram_simple_draft ex_simple_state [9, 1, 2, 3, 4, 5, 1] 2
       = Some (ex_simple_state\<lparr>simple_idx_last_check := 7\<rparr>, [3, 4, 5])"
proof -
  have h1: "simple_idx_last_check ex_simple_state + simple_check_rate (config ex_simple_state)
      \<le> length [9, 1, 2, 3, 4, 5, 1 :: int]"
    by (simp add: ex_simple_state_def)
  have h2: "size_ngram (config ex_simple_state) + size_mgram (config ex_simple_state) + 1
      < length [9, 1, 2, 3, 4, 5, 1 :: int]"
    by (simp add: ex_simple_state_def)
  have h3: "simple_match_pos (size_ngram (config ex_simple_state)) [9, 1, 2, 3, 4, 5, 1] 2
      = Some 1"
    by (simp add: ex_simple_state_def ev)
  have h4: "(1::nat) \<noteq> 0" by simp
  have h5: "(3::nat) = min (size_mgram (config ex_simple_state))
      (length [9, 1, 2, 3, 4, 5, 1 :: int] - (1 + size_ngram (config ex_simple_state)))"
    by (simp add: ex_simple_state_def)
  have e: "common_ngram_simple_draft ex_simple_state [9, 1, 2, 3, 4, 5, 1] 2
       = Some (ex_simple_state\<lparr>simple_idx_last_check := 7\<rparr>, [3, 4, 5])"
    by (simp add: ex_simple_state_def ev)
  show ?thesis
    using simple_draft_available_tokens [OF h1 h2 h3 h4 h5] h3 e
    by (simp add: ex_simple_state_def)
qed

text \<open>
  C3 (as amended). Once the guard on the history length and the throttle have
  passed, the cache sets \<open>idx_last_check\<close> to the length of the history, also when
  no key match is found. The pattern-replay drafter does the same: once its
  throttle and its precondition have passed it sets \<open>idx_last_check\<close> to the length
  of the history before it searches, so the cursor is updated also when the
  backward scan finds no match.
\<close>

theorem cursor_set_before_search:
  "(simple_idx_last_check state + simple_check_rate (config state) \<le> length tokens
      \<and> size_ngram (config state) + size_mgram (config state) + 1 < length tokens
    \<longrightarrow> (\<exists>d. common_ngram_simple_draft state tokens sampled
               = Some (state\<lparr>simple_idx_last_check := length tokens\<rparr>, d))
      \<and> (simple_match_pos (size_ngram (config state)) tokens sampled = Some 0
           \<longrightarrow> common_ngram_simple_draft state tokens sampled
               = Some (state\<lparr>simple_idx_last_check := length tokens\<rparr>, [])))
   \<and> (2 * size_key mp + size_value mp \<le> length inp
      \<and> idx_last_check mp + check_rate mp \<le> length inp
    \<longrightarrow> (\<forall>mp' d. common_ngram_map_draft mp inp sampled' = Some (mp', d)
               \<longrightarrow> idx_last_check mp' = length inp)
      \<and> (map_match_pos (size_key mp) (size_value mp) inp sampled' = Some 0
           \<longrightarrow> common_ngram_map_draft mp inp sampled'
               = Some (mp\<lparr>last_draft_created := False, last_draft_key_idx := 0,
                         last_draft_value_idx := 0, idx_last_check := length inp\<rparr>, [])))"
  using simple_draft_sets_cursor [of state tokens sampled]
    simple_draft_no_match [of state tokens sampled]
    map_draft_cursor [of mp inp sampled']
    map_draft_no_match [of mp inp sampled']
  by blast

theorem cursor_set_before_search_witness:
  "simple_match_pos 2 [9, 1, 2, 3, 4, 5, 1] 7 = Some 0
   \<and> common_ngram_simple_draft ex_simple_state [9, 1, 2, 3, 4, 5, 1] 7
       = Some (ex_simple_state\<lparr>simple_idx_last_check := 7\<rparr>, [])
   \<and> map_match_pos 1 1 [9, 1, 2, 3, 4] 7 = Some 0
   \<and> common_ngram_map_draft ex_map [9, 1, 2, 3, 4] 7
       = Some (ex_map\<lparr>idx_last_check := 5\<rparr>, [])"
proof -
  have s1: "simple_idx_last_check ex_simple_state + simple_check_rate (config ex_simple_state)
        \<le> length [9, 1, 2, 3, 4, 5, 1 :: int]
      \<and> size_ngram (config ex_simple_state) + size_mgram (config ex_simple_state) + 1
        < length [9, 1, 2, 3, 4, 5, 1 :: int]"
    by (simp add: ex_simple_state_def)
  have s2: "simple_match_pos (size_ngram (config ex_simple_state)) [9, 1, 2, 3, 4, 5, 1] 7
      = Some 0"
    by (simp add: ex_simple_state_def ev)
  have m1: "2 * size_key ex_map + size_value ex_map \<le> length [9, 1, 2, 3, 4 :: int]
      \<and> idx_last_check ex_map + check_rate ex_map \<le> length [9, 1, 2, 3, 4 :: int]"
    by (simp add: ex_map_def)
  have m2: "map_match_pos (size_key ex_map) (size_value ex_map) [9, 1, 2, 3, 4] 7 = Some 0"
    by (simp add: ex_map_def ev)
  show ?thesis
    using cursor_set_before_search
      [of ex_simple_state "[9, 1, 2, 3, 4, 5, 1]" 7 ex_map "[9, 1, 2, 3, 4]" 7] s1 s2 m1 m2
    by (simp add: ex_map_def ex_simple_state_def)
qed

text \<open>
  C3 as it was stated fails: on this call of the pattern-replay drafter the
  throttle and the precondition pass and the backward scan finds no match, yet
  \<open>idx_last_check\<close> changes from 0 to 7.
\<close>

theorem simple_cursor_counterexample:
  "simple_idx_last_check ex_simple_state + simple_check_rate (config ex_simple_state)
      \<le> length [9, 1, 2, 3, 4, 5, 1 :: int]
   \<and> size_ngram (config ex_simple_state) + size_mgram (config ex_simple_state) + 1
      < length [9, 1, 2, 3, 4, 5, 1 :: int]
   \<and> simple_match_pos (size_ngram (config ex_simple_state)) [9, 1, 2, 3, 4, 5, 1] 7 = Some 0
   \<and> simple_idx_last_check ex_simple_state = 0
   \<and> map_option (simple_idx_last_check \<circ> fst)
        (common_ngram_simple_draft ex_simple_state [9, 1, 2, 3, 4, 5, 1] 7) = Some 7"
  by (simp add: ex_simple_state_def ev)



section \<open>Selection and the confidence gate\<close>

lemma length_slots:
  assumes "length vals = COMMON_NGRAM_MAX_VALUES"
  obtains a b c d where "vals = [a, b, c, d]"
proof -
  from assms have "length vals = Suc (Suc (Suc (Suc 0)))"
    by (simp add: COMMON_NGRAM_MAX_VALUES_def)
  then obtain a b c d where "vals = [a, b, c, d]"
    by (auto simp: length_Suc_conv)
  then show ?thesis by (rule that)
qed

lemma select_max_4:
  "select_max [a, b, c, d] =
     (let s0 = (0, 0);
          s1 = (if value_num a > fst s0 then (value_num a, 0) else s0);
          s2 = (if value_num b > fst s1 then (value_num b, 1) else s1);
          s3 = (if value_num c > fst s2 then (value_num c, 2) else s2)
      in if value_num d > fst s3 then (value_num d, 3) else s3)"
  by (simp add: select_max_def slots_upt Let_def split_def)

lemma sum_others_4:
  "sum_others [a, b, c, d] slot_max =
     (if slot_max = 0 then 0 else value_num a) + (if slot_max = 1 then 0 else value_num b)
     + (if slot_max = 2 then 0 else value_num c) + (if slot_max = 3 then 0 else value_num d)"
  by (simp add: sum_others_def slots_upt)

lemma less_4_cases: "(v::nat) < 4 \<longleftrightarrow> v = 0 \<or> v = 1 \<or> v = 2 \<or> v = 3"
  by auto

lemma select_max_slot:
  assumes "length vals = COMMON_NGRAM_MAX_VALUES"
  shows "snd (select_max vals) < COMMON_NGRAM_MAX_VALUES"
    and "fst (select_max vals) = value_num (vals ! snd (select_max vals))"
proof -
  obtain a b c d where v: "vals = [a, b, c, d]" using assms by (rule length_slots)
  show "snd (select_max vals) < COMMON_NGRAM_MAX_VALUES"
    unfolding v by (simp add: select_max_4 Let_def COMMON_NGRAM_MAX_VALUES_def)
  show "fst (select_max vals) = value_num (vals ! snd (select_max vals))"
    unfolding v by (simp add: select_max_4 Let_def)
qed

lemma select_max_greatest:
  assumes "length vals = COMMON_NGRAM_MAX_VALUES" and "v < COMMON_NGRAM_MAX_VALUES"
  shows "value_num (vals ! v) \<le> fst (select_max vals)"
proof -
  obtain a b c d where v: "vals = [a, b, c, d]" using assms(1) by (rule length_slots)
  from assms(2) have "v = 0 \<or> v = 1 \<or> v = 2 \<or> v = 3"
    by (simp add: COMMON_NGRAM_MAX_VALUES_def less_4_cases)
  then show ?thesis
    unfolding v by (auto simp: select_max_4 Let_def)
qed

lemma select_max_first:
  assumes "length vals = COMMON_NGRAM_MAX_VALUES" and "v < snd (select_max vals)"
  shows "value_num (vals ! v) < fst (select_max vals)"
proof -
  obtain a b c d where v: "vals = [a, b, c, d]" using assms(1) by (rule length_slots)
  have "snd (select_max vals) < 4"
    using select_max_slot(1) [OF assms(1)] by (simp add: COMMON_NGRAM_MAX_VALUES_def)
  with assms(2) have "v = 0 \<or> v = 1 \<or> v = 2" by auto
  then show ?thesis
    using assms(2) unfolding v by (auto simp: select_max_4 Let_def split: if_splits)
qed

lemma sum_others_sum:
  assumes "length vals = COMMON_NGRAM_MAX_VALUES"
  shows "sum_others vals slot_max =
     (\<Sum>v \<in> {0..<COMMON_NGRAM_MAX_VALUES} - {slot_max}. value_num (vals ! v))"
proof -
  obtain a b c d where v: "vals = [a, b, c, d]" using assms by (rule length_slots)
  have set: "{0..<COMMON_NGRAM_MAX_VALUES} = {0, 1, 2, 3}"
    by (auto simp: COMMON_NGRAM_MAX_VALUES_def)
  have "slot_max = 0 \<or> slot_max = 1 \<or> slot_max = 2 \<or> slot_max = 3 \<or> 3 < slot_max"
    by auto
  then show ?thesis
  proof (elim disjE)
    assume "slot_max = 0"
    moreover have "{0, 1, 2, 3} - {0::nat} = {1, 2, 3}" by auto
    ultimately show ?thesis unfolding v set by (simp add: sum_others_4)
  next
    assume "slot_max = 1"
    moreover have "{0, 1, 2, 3} - {1::nat} = {0, 2, 3}" by auto
    ultimately show ?thesis unfolding v set by (simp add: sum_others_4)
  next
    assume "slot_max = 2"
    moreover have "{0, 1, 2, 3} - {2::nat} = {0, 1, 3}" by auto
    ultimately show ?thesis unfolding v set by (simp add: sum_others_4)
  next
    assume "slot_max = 3"
    moreover have "{0, 1, 2, 3} - {3::nat} = {0, 1, 2}" by auto
    ultimately show ?thesis unfolding v set by (simp add: sum_others_4)
  next
    assume "3 < slot_max"
    moreover from this have "{0, 1, 2, 3} - {slot_max} = {0, 1, 2, 3}" by auto
    ultimately show ?thesis unfolding v set by (simp add: sum_others_4)
  qed
qed

lemma gate_rejects_iff:
  "gate_rejects vals \<longleftrightarrow>
     sum_others vals (snd (select_max vals)) > 0
     \<and> fst (select_max vals) < 3 * sum_others vals (snd (select_max vals))"
  by (simp add: gate_rejects_def Let_def split_def)

lemma find_key_bounds:
  "find_key inp key_tokens ks i = Some r \<Longrightarrow> i \<le> r \<and> r \<le> i + length ks"
proof (induction ks arbitrary: i)
  case Nil
  then show ?case by simp
next
  case (Cons k ks)
  show ?case
  proof (cases "window_eq inp (key_idx k) key_tokens = Some False")
    case True
    with Cons.prems have "find_key inp key_tokens ks (Suc i) = Some r" by simp
    from Cons.IH [OF this] show ?thesis by simp
  next
    case False
    with Cons.prems show ?thesis by (auto split: option.splits bool.splits)
  qed
qed

lemma find_key_offset:
  assumes "find_key inp key_tokens ks 0 = Some ko"
  shows "ko < length (if ko = length ks then ks @ [k] else ks)"
  using find_key_bounds [OF assms] by auto

lemma draft_at_match_gate:
  assumes res: "draft_at_match mp inp key_tokens match_pos = Some (mp', d)"
    and stat: "\<not> key_only mp"
    and fresh: "\<not> last_draft_created mp"
    and ko: "find_key inp key_tokens (keys mp) 0 = Some ko"
    and hits: "min_hits mp \<le> key_num (keys mp' ! ko)"
  shows "(gate_rejects (key_values (keys mp' ! ko)) \<longrightarrow> d = [] \<and> \<not> last_draft_created mp')
       \<and> (\<not> gate_rejects (key_values (keys mp' ! ko)) \<longrightarrow>
            last_draft_created mp' \<and> last_draft_key_idx mp' = ko
            \<and> last_draft_value_idx mp' = snd (select_max (key_values (keys mp' ! ko))))"
proof -
  define keys1 where "keys1 = (if ko = length (keys mp)
      then keys mp @ [new_key match_pos (size_value mp)] else keys mp)"
  have lt: "ko < length keys1"
    unfolding keys1_def using ko by (rule find_key_offset)
  show ?thesis
    using res stat fresh hits lt
    by (auto simp: draft_at_match_def ko Let_def keys1_def [symmetric]
        split: option.splits if_splits)
qed

text \<open>
  C4. In statistical mode the selection takes \<open>slot_max\<close>, the slot of the largest
  \<open>value_num\<close>, the lowest such slot on a tie (the comparison is strict), and
  \<open>sum_occur\<close>, the sum of \<open>value_num\<close> over the other slots. The draft is
  rejected exactly when \<open>sum_occur > 0\<close> and \<open>value_num [slot_max] < 3 * sum_occur\<close>.
  With two occupied slots of counts (9, 3) the gate passes, with (8, 3) it rejects,
  and when no other slot has a count (\<open>sum_occur = 0\<close>) it passes whatever the
  count of the one slot. In \<open>draft_at_match\<close>, for the key entry in use, a
  rejecting gate gives the empty draft with no draft recorded, and a passing gate
  records the draft with \<open>slot_max\<close>.
\<close>

theorem confidence_gate:
  assumes "length vals = COMMON_NGRAM_MAX_VALUES"
  shows "snd (select_max vals) < COMMON_NGRAM_MAX_VALUES
     \<and> fst (select_max vals) = value_num (vals ! snd (select_max vals))
     \<and> (\<forall>v < COMMON_NGRAM_MAX_VALUES.
           value_num (vals ! v) \<le> value_num (vals ! snd (select_max vals)))
     \<and> (\<forall>v < snd (select_max vals).
           value_num (vals ! v) < value_num (vals ! snd (select_max vals)))
     \<and> sum_others vals (snd (select_max vals))
         = (\<Sum>v \<in> {0..<COMMON_NGRAM_MAX_VALUES} - {snd (select_max vals)}.
              value_num (vals ! v))
     \<and> (gate_rejects vals \<longleftrightarrow>
           sum_others vals (snd (select_max vals)) > 0
           \<and> value_num (vals ! snd (select_max vals))
               < 3 * sum_others vals (snd (select_max vals)))
     \<and> (sum_others vals (snd (select_max vals)) = 0 \<longrightarrow> \<not> gate_rejects vals)
     \<and> (\<forall>a b c d. value_num a = 9 \<and> value_num b = 3 \<and> value_num c = 0 \<and> value_num d = 0
           \<longrightarrow> \<not> gate_rejects [a, b, c, d])
     \<and> (\<forall>a b c d. value_num a = 8 \<and> value_num b = 3 \<and> value_num c = 0 \<and> value_num d = 0
           \<longrightarrow> gate_rejects [a, b, c, d])
     \<and> (draft_at_match mp inp key_tokens match_pos = Some (mp', d)
          \<and> \<not> key_only mp \<and> \<not> last_draft_created mp
          \<and> find_key inp key_tokens (keys mp) 0 = Some ko
          \<and> min_hits mp \<le> key_num (keys mp' ! ko)
        \<longrightarrow> (gate_rejects (key_values (keys mp' ! ko))
               \<longrightarrow> d = [] \<and> \<not> last_draft_created mp')
            \<and> (\<not> gate_rejects (key_values (keys mp' ! ko))
               \<longrightarrow> last_draft_created mp' \<and> last_draft_key_idx mp' = ko
                  \<and> last_draft_value_idx mp'
                      = snd (select_max (key_values (keys mp' ! ko)))))"
proof -
  note sl = select_max_slot [OF assms]
  have greatest: "\<forall>v < COMMON_NGRAM_MAX_VALUES.
      value_num (vals ! v) \<le> value_num (vals ! snd (select_max vals))"
    using select_max_greatest [OF assms] sl(2) by simp
  have first: "\<forall>v < snd (select_max vals).
      value_num (vals ! v) < value_num (vals ! snd (select_max vals))"
    using select_max_first [OF assms] sl(2) by simp
  have gate: "gate_rejects vals \<longleftrightarrow>
      sum_others vals (snd (select_max vals)) > 0
      \<and> value_num (vals ! snd (select_max vals))
          < 3 * sum_others vals (snd (select_max vals))"
    using gate_rejects_iff [of vals] sl(2) by simp
  have single: "sum_others vals (snd (select_max vals)) = 0 \<longrightarrow> \<not> gate_rejects vals"
    using gate by simp
  have pass: "\<forall>a b c d. value_num a = 9 \<and> value_num b = 3 \<and> value_num c = 0
      \<and> value_num d = 0 \<longrightarrow> \<not> gate_rejects [a, b, c, d]"
    by (simp add: gate_rejects_iff select_max_4 sum_others_4)
  have reject: "\<forall>a b c d. value_num a = 8 \<and> value_num b = 3 \<and> value_num c = 0
      \<and> value_num d = 0 \<longrightarrow> gate_rejects [a, b, c, d]"
    by (simp add: gate_rejects_iff select_max_4 sum_others_4)
  have link: "draft_at_match mp inp key_tokens match_pos = Some (mp', d)
          \<and> \<not> key_only mp \<and> \<not> last_draft_created mp
          \<and> find_key inp key_tokens (keys mp) 0 = Some ko
          \<and> min_hits mp \<le> key_num (keys mp' ! ko)
        \<longrightarrow> (gate_rejects (key_values (keys mp' ! ko))
               \<longrightarrow> d = [] \<and> \<not> last_draft_created mp')
            \<and> (\<not> gate_rejects (key_values (keys mp' ! ko))
               \<longrightarrow> last_draft_created mp' \<and> last_draft_key_idx mp' = ko
                  \<and> last_draft_value_idx mp'
                      = snd (select_max (key_values (keys mp' ! ko))))"
    using draft_at_match_gate [of mp inp key_tokens match_pos mp' d ko] by blast
  show ?thesis
    using sl(1) sl(2) greatest first sum_others_sum [OF assms] gate single pass reject link
    by blast
qed

theorem confidence_gate_witness:
  "length (ex_slots 9 3) = COMMON_NGRAM_MAX_VALUES
   \<and> select_max (ex_slots 9 3) = (9, 0) \<and> sum_others (ex_slots 9 3) 0 = 3
   \<and> \<not> gate_rejects (ex_slots 9 3)
   \<and> gate_rejects (ex_slots 8 3)
   \<and> \<not> gate_rejects (ex_slots 1 0)
   \<and> select_max (ex_slots 3 3) = (3, 0)
   \<and> select_max (ex_slots 3 9) = (9, 1)
   \<and> draft_at_match (ex_map\<lparr>idx_last_check := 5\<rparr>) [9, 1, 2, 3, 4] [1] 1
       = Some (ex_map\<lparr>idx_last_check := 5, keys := [ex_key], last_draft_created := True\<rparr>, [2])
   \<and> draft_at_match
         (ex_map\<lparr>keys := [ex_key\<lparr>key_values := ex_slots 7 3\<rparr>]\<rparr>)
         [9, 1, 2, 3, 1] [1] 1
       = Some (ex_map\<lparr>keys :=
                 [ex_key\<lparr>key_values := ex_slots 8 3, key_num := 2\<rparr>]\<rparr>, [])"
proof -
  have l: "length (ex_slots 9 3) = COMMON_NGRAM_MAX_VALUES"
    by (simp add: ex_slots_def COMMON_NGRAM_MAX_VALUES_def)
  have e1: "draft_at_match (ex_map\<lparr>idx_last_check := 5\<rparr>) [9, 1, 2, 3, 4] [1] 1
       = Some (ex_map\<lparr>idx_last_check := 5, keys := [ex_key], last_draft_created := True\<rparr>, [2])"
    by (simp add: ex_map_def ex_key_def ev)
  have e2: "draft_at_match
         (ex_map\<lparr>keys := [ex_key\<lparr>key_values := ex_slots 7 3\<rparr>]\<rparr>)
         [9, 1, 2, 3, 1] [1] 1
       = Some (ex_map\<lparr>keys :=
                 [ex_key\<lparr>key_values := ex_slots 8 3, key_num := 2\<rparr>]\<rparr>, [])"
    by (simp add: ex_map_def ex_key_def ex_slots_def ev)
  have f1: "find_key [9, 1, 2, 3, 4] [1] (keys (ex_map\<lparr>idx_last_check := 5\<rparr>)) 0 = Some 0"
    by (simp add: ex_map_def)
  have evs: "select_max (ex_slots 9 3) = (9, 0)" "sum_others (ex_slots 9 3) 0 = 3"
    "\<not> gate_rejects (ex_slots 9 3)" "gate_rejects (ex_slots 8 3)"
    "\<not> gate_rejects (ex_slots 1 0)" "select_max (ex_slots 3 3) = (3, 0)"
    "select_max (ex_slots 3 9) = (9, 1)"
    by (simp_all add: ex_slots_def ev)
  show ?thesis
    using confidence_gate [OF l, of "ex_map\<lparr>idx_last_check := 5\<rparr>" "[9, 1, 2, 3, 4]" "[1]" 1
        "ex_map\<lparr>idx_last_check := 5, keys := [ex_key], last_draft_created := True\<rparr>" "[2]" 0]
      l e1 e2 f1 evs
    by simp
qed

section \<open>One occurrence of the key in the statistics loop\<close>

lemma find_value_claims:
  assumes "v < COMMON_NGRAM_MAX_VALUES"
    and "value_idx (vals ! v) = 0"
    and "\<forall>u. u0 \<le> u \<and> u < v \<longrightarrow>
           value_idx (vals ! u) \<noteq> 0 \<and> mgram_eq inp b (value_idx (vals ! u)) m = Some False"
    and "u0 \<le> v"
  shows "find_value inp m b vals u0 =
     Some (vals[v := (vals ! v)\<lparr>value_idx := b, value_num := 0, n_accepted := int m\<rparr>], int v)"
  using assms
proof (induction "v - u0" arbitrary: u0)
  case 0
  then have "u0 = v" by simp
  with "0.prems"(1,2) show ?case
    by (simp add: find_value.simps [of inp m b vals v])
next
  case (Suc k)
  then have lt: "u0 < v" by simp
  with Suc.prems(3) have occ: "value_idx (vals ! u0) \<noteq> 0"
    and ne: "mgram_eq inp b (value_idx (vals ! u0)) m = Some False"
    by auto
  have "find_value inp m b vals (Suc u0) =
     Some (vals[v := (vals ! v)\<lparr>value_idx := b, value_num := 0, n_accepted := int m\<rparr>], int v)"
  proof (rule Suc.hyps(1))
    show "k = v - Suc u0" using Suc.hyps(2) by simp
    show "v < COMMON_NGRAM_MAX_VALUES" by (rule Suc.prems(1))
    show "value_idx (vals ! v) = 0" by (rule Suc.prems(2))
    show "\<forall>u. Suc u0 \<le> u \<and> u < v \<longrightarrow>
           value_idx (vals ! u) \<noteq> 0 \<and> mgram_eq inp b (value_idx (vals ! u)) m = Some False"
      using Suc.prems(3) by simp
    show "Suc u0 \<le> v" using lt by simp
  qed
  moreover have "u0 < COMMON_NGRAM_MAX_VALUES" using lt Suc.prems(1) by simp
  ultimately show ?case
    using occ ne by (simp add: find_value.simps [of inp m b vals u0])
qed

lemma value_overwritten:
  "(r :: common_ngram_map_value)\<lparr>value_idx := a, n_accepted := c, value_num := b\<rparr>
     = \<lparr>value_idx = a, value_num = b, n_accepted = c\<rparr>"
  by (cases r) simp

lemma stat_occurrence_claims:
  assumes len: "length vals = COMMON_NGRAM_MAX_VALUES"
    and v: "v < COMMON_NGRAM_MAX_VALUES"
    and free: "value_idx (vals ! v) = 0"
    and before: "\<forall>u < v. value_idx (vals ! u) \<noteq> 0
                   \<and> mgram_eq inp (i + n) (value_idx (vals ! u)) m = Some False"
  shows "stat_occurrence inp n m i vals =
     Some (vals[v := \<lparr>value_idx = i + n, value_num = 1, n_accepted = int m\<rparr>])"
proof -
  have "find_value inp m (i + n) vals 0 =
     Some (vals[v := (vals ! v)\<lparr>value_idx := i + n, value_num := 0,
                               n_accepted := int m\<rparr>], int v)"
    using v free before by (intro find_value_claims) auto
  then show ?thesis
    using v len
    by (simp add: stat_occurrence_def count_inc_def COMMON_NGRAM_MAX_VALUE_COUNT_def
        value_overwritten)
qed

text \<open>
  C1 (as amended). In the statistics refresh, when the key stands at position \<open>i\<close>,
  the m-gram after it matches none of the occupied slots before the first free
  slot \<open>v\<close>, then slot \<open>v\<close> is claimed for that continuation
  (\<open>value_idx = i + n\<close>, \<open>n_accepted = m\<close>) and, once this occurrence has been
  processed, its \<open>value_num\<close> is 1: the occurrence that establishes the slot is
  tallied. The other slots are unchanged.
\<close>

theorem refresh_claims_first_free_slot:
  assumes "length vals = COMMON_NGRAM_MAX_VALUES"
    and "v < COMMON_NGRAM_MAX_VALUES"
    and "value_idx (vals ! v) = 0"
    and "\<forall>u < v. value_idx (vals ! u) \<noteq> 0
           \<and> mgram_eq inp (i + n) (value_idx (vals ! u)) m = Some False"
  shows "stat_occurrence inp n m i vals =
     Some (vals[v := \<lparr>value_idx = i + n, value_num = 1, n_accepted = int m\<rparr>])"
  using assms by (rule stat_occurrence_claims)

theorem refresh_claims_first_free_slot_witness:
  "value_idx (key_values ex_key ! 0) \<noteq> 0
   \<and> mgram_eq [9, 1, 2, 3, 1, 5, 6] (4 + 1) (value_idx (key_values ex_key ! 0)) 1 = Some False
   \<and> value_idx (key_values ex_key ! 1) = 0
   \<and> stat_occurrence [9, 1, 2, 3, 1, 5, 6] 1 1 4 (key_values ex_key) =
       Some [\<lparr>value_idx = 2, value_num = 1, n_accepted = 1\<rparr>,
             \<lparr>value_idx = 5, value_num = 1, n_accepted = 1\<rparr>,
             new_value 1, new_value 1]"
proof -
  have h1: "length (key_values ex_key) = COMMON_NGRAM_MAX_VALUES"
    by (simp add: ex_key_def COMMON_NGRAM_MAX_VALUES_def)
  have h2: "1 < COMMON_NGRAM_MAX_VALUES"
    by (simp add: COMMON_NGRAM_MAX_VALUES_def)
  have h3: "value_idx (key_values ex_key ! 1) = 0"
    by (simp add: ex_key_def new_value_def)
  have h4: "\<forall>u < 1. value_idx (key_values ex_key ! u) \<noteq> 0
      \<and> mgram_eq [9, 1, 2, 3, 1, 5, 6] (4 + 1) (value_idx (key_values ex_key ! u)) 1
          = Some False"
    by (simp add: ex_key_def ev)
  show ?thesis
    using refresh_claims_first_free_slot [OF h1 h2 h3 h4] h3 h4
    by (simp add: ex_key_def)
qed

text \<open>
  C1 as it was stated fails. The history \<open>[9, 1, 2, 3, 4]\<close> holds the key
  \<open>[1]\<close> once, at position 1. Processing that occurrence on empty slots claims
  slot 0 for the continuation at position 2 and leaves its \<open>value_num\<close> at 1, not 0;
  the same is seen in the cache after the whole draft call.
\<close>

theorem establishing_occurrence_counterexample:
  "stat_occurrence [9, 1, 2, 3, 4] 1 1 1 (replicate COMMON_NGRAM_MAX_VALUES (new_value 1))
     = Some [\<lparr>value_idx = 2, value_num = 1, n_accepted = 1\<rparr>,
             new_value 1, new_value 1, new_value 1]
   \<and> common_ngram_map_draft ex_map [9, 1, 2, 3, 4] 1 = Some (ex_map_after, [2])
   \<and> value_idx (key_values (keys ex_map_after ! 0) ! 0) = 2
   \<and> value_num (key_values (keys ex_map_after ! 0) ! 0) = 1"
  by (simp add: ex_map_after_def ex_map_def ex_key_def ev)

text \<open>
  C2. The ranges scanned by successive statistics refreshes of a key entry overlap
  in the position \<open>stat_idx\<close>: a refresh scans from \<open>stat_idx\<close> through \<open>match_pos\<close>
  and sets \<open>stat_idx = match_pos\<close>, and the next refresh starts at that position
  again. In the first call the key \<open>[1]\<close> stands in the history once, at position 1,
  followed by \<open>[2]\<close>: the refresh scans positions 0 to 1 and counts the occurrence
  (\<open>value_num = 1\<close>, \<open>stat_idx = 1\<close>). In the second call the history has grown and
  the key stands at positions 1 and 5, each followed by \<open>[2]\<close>: the refresh scans
  positions 1 to 5, so position 1 is counted a second time, and \<open>value_num\<close> is 3
  for two occurrences.
\<close>

theorem refresh_counts_position_twice:
  "common_ngram_map_draft ex_map [9, 1, 2, 3, 4] 1 = Some (ex_map_after, [2])
   \<and> stat_idx (keys ex_map_after ! 0) = 1
   \<and> value_num (key_values (keys ex_map_after ! 0) ! 0) = 1
   \<and> map_match_pos 1 1 [9, 1, 2, 3, 4, 1, 2, 3, 4] 1 = Some 5
   \<and> common_ngram_map_draft ex_map_after [9, 1, 2, 3, 4, 1, 2, 3, 4] 1 =
       Some (ex_map_after\<lparr>idx_last_check := 9,
               keys := [ex_key\<lparr>key_num := 2, stat_idx := 5,
                  key_values := [\<lparr>value_idx = 2, value_num = 3, n_accepted = 1\<rparr>,
                                 new_value 1, new_value 1, new_value 1]\<rparr>]\<rparr>, [2])
   \<and> filter (occurs_at [9, 1, 2, 3, 4, 1, 2, 3, 4] [1]) [0..<9] = [1, 5]"
  by (simp add: ex_map_after_def ex_map_def ex_key_def ev upt_rec)

section \<open>Recording a draft and the feedback\<close>

lemma select_max_slot_less: "snd (select_max vals) < COMMON_NGRAM_MAX_VALUES"
  unfolding select_max_def slots_upt
  by (simp add: Let_def COMMON_NGRAM_MAX_VALUES_def split_def)

lemma draft_at_match_created:
  assumes res: "draft_at_match mp inp key_tokens match_pos = Some (mp', d)"
    and created: "last_draft_created mp'"
    and fresh: "\<not> last_draft_created mp"
  shows "\<not> key_only mp
       \<and> find_key inp key_tokens (keys mp) 0 = Some (last_draft_key_idx mp')
       \<and> last_draft_key_idx mp' < length (keys mp')
       \<and> min_hits mp \<le> key_num (keys mp' ! last_draft_key_idx mp')
       \<and> \<not> gate_rejects (key_values (keys mp' ! last_draft_key_idx mp'))
       \<and> last_draft_value_idx mp'
           = snd (select_max (key_values (keys mp' ! last_draft_key_idx mp')))"
proof -
  obtain ko where ko: "find_key inp key_tokens (keys mp) 0 = Some ko"
    using res
    by (cases "find_key inp key_tokens (keys mp) 0") (auto simp: draft_at_match_def Let_def)
  define keys1 where "keys1 = (if ko = length (keys mp)
      then keys mp @ [new_key match_pos (size_value mp)] else keys mp)"
  have lt: "ko < length keys1"
    unfolding keys1_def using ko by (rule find_key_offset)
  show ?thesis
    using res created fresh lt
    by (auto simp: draft_at_match_def ko Let_def keys1_def [symmetric]
        split: option.splits if_splits)
qed

lemma map_draft_created:
  assumes res: "common_ngram_map_draft mp inp sampled = Some (mp', d)"
    and created: "last_draft_created mp'"
  shows "2 * size_key mp + size_value mp \<le> length inp
       \<and> idx_last_check mp + check_rate mp \<le> length inp
       \<and> \<not> key_only mp
       \<and> (\<exists>p. p \<noteq> 0 \<and> map_match_pos (size_key mp) (size_value mp) inp sampled = Some p)
       \<and> find_key inp (map_key_tokens (size_key mp) inp sampled) (keys mp) 0
           = Some (last_draft_key_idx mp')
       \<and> last_draft_key_idx mp' < length (keys mp')
       \<and> last_draft_value_idx mp' < COMMON_NGRAM_MAX_VALUES
       \<and> min_hits mp \<le> key_num (keys mp' ! last_draft_key_idx mp')
       \<and> \<not> gate_rejects (key_values (keys mp' ! last_draft_key_idx mp'))
       \<and> last_draft_value_idx mp'
           = snd (select_max (key_values (keys mp' ! last_draft_key_idx mp')))"
proof -
  let ?n = "size_key mp" and ?m = "size_value mp"
  let ?mp1 = "mp\<lparr>last_draft_created := False, last_draft_key_idx := 0,
                 last_draft_value_idx := 0, idx_last_check := length inp\<rparr>"
  have guard: "2 * ?n + ?m \<le> length inp"
    and throttle: "idx_last_check mp + check_rate mp \<le> length inp"
    using res created
    by (auto simp: common_ngram_map_draft_def Let_def split: if_splits)
  then obtain p where p: "map_match_pos ?n ?m inp sampled = Some p"
    using map_match_pos_Some by blast
  have p0: "p \<noteq> 0"
    using res created guard throttle p
    by (auto simp: common_ngram_map_draft_def Let_def split: if_splits)
  then have dm: "draft_at_match ?mp1 inp (map_key_tokens ?n inp sampled) p = Some (mp', d)"
    using res guard throttle p by (simp add: common_ngram_map_draft_def Let_def)
  have "\<not> last_draft_created ?mp1" by simp
  from draft_at_match_created [OF dm created this] p p0 guard throttle
  show ?thesis
    using select_max_slot_less
      [of "key_values (keys mp' ! last_draft_key_idx mp')"]
    by auto
qed

lemma accept_none:
  "\<not> last_draft_created mp \<Longrightarrow> common_ngram_map_accept mp n_acc = Some mp"
  by (simp add: common_ngram_map_accept_def)

lemma accept_overwrites:
  assumes "last_draft_created mp"
    and "last_draft_key_idx mp < length (keys mp)"
    and "last_draft_value_idx mp < COMMON_NGRAM_MAX_VALUES"
    and "last_draft_value_idx mp < length (key_values (keys mp ! last_draft_key_idx mp))"
  shows "common_ngram_map_accept mp n_acc =
     Some (mp\<lparr>keys := (keys mp)[last_draft_key_idx mp :=
        (keys mp ! last_draft_key_idx mp)\<lparr>key_values :=
           (key_values (keys mp ! last_draft_key_idx mp))[last_draft_value_idx mp :=
              (key_values (keys mp ! last_draft_key_idx mp) ! last_draft_value_idx mp)
                \<lparr>n_accepted := int n_acc\<rparr>]\<rparr>]\<rparr>)"
  using assms by (simp add: common_ngram_map_accept_def Let_def)

text \<open>
  C7 (as amended). The feedback function changes nothing and returns whenever no
  draft is recorded (\<open>last_draft_created\<close> is false). That is the state after a
  draft call rejected by the guard on the history length, by the throttle, by the
  key search, by the floor \<open>min_hits\<close> or by the confidence gate, and after a draft
  in key-only mode. It is not the state after every empty draft: in statistical
  mode a draft that passes the gate is recorded also when its length
  \<open>min m n_accepted\<close> is 0. When a draft is recorded, its key and slot exist, and
  the feedback overwrites \<open>n_accepted\<close> of that slot with the accepted count and
  leaves every other field of the cache as it was.
\<close>

theorem accept_feedback:
  "(\<not> last_draft_created mp \<longrightarrow> common_ngram_map_accept mp n_acc = Some mp)
   \<and> (common_ngram_map_draft mp0 inp sampled = Some (mp, d)
        \<and> (length inp < 2 * size_key mp0 + size_value mp0
           \<or> length inp < idx_last_check mp0 + check_rate mp0
           \<or> map_match_pos (size_key mp0) (size_value mp0) inp sampled = Some 0
           \<or> key_only mp0
           \<or> (\<exists>ko. find_key inp (map_key_tokens (size_key mp0) inp sampled) (keys mp0) 0
                      = Some ko
                  \<and> (key_num (keys mp ! ko) < min_hits mp0
                     \<or> gate_rejects (key_values (keys mp ! ko)))))
      \<longrightarrow> \<not> last_draft_created mp \<and> common_ngram_map_accept mp n_acc = Some mp)
   \<and> (common_ngram_map_draft mp0 inp sampled = Some (mp, d) \<and> last_draft_created mp
      \<longrightarrow> last_draft_key_idx mp < length (keys mp)
          \<and> last_draft_value_idx mp < COMMON_NGRAM_MAX_VALUES)
   \<and> (last_draft_created mp
        \<and> last_draft_key_idx mp < length (keys mp)
        \<and> last_draft_value_idx mp < COMMON_NGRAM_MAX_VALUES
        \<and> last_draft_value_idx mp < length (key_values (keys mp ! last_draft_key_idx mp))
      \<longrightarrow> (\<exists>mp'. common_ngram_map_accept mp n_acc = Some mp'
            \<and> mp' = mp\<lparr>keys := (keys mp)[last_draft_key_idx mp :=
                  (keys mp ! last_draft_key_idx mp)\<lparr>key_values :=
                    (key_values (keys mp ! last_draft_key_idx mp))[last_draft_value_idx mp :=
                      (key_values (keys mp ! last_draft_key_idx mp) ! last_draft_value_idx mp)
                        \<lparr>n_accepted := int n_acc\<rparr>]\<rparr>]\<rparr>
            \<and> n_accepted (key_values (keys mp' ! last_draft_key_idx mp)
                            ! last_draft_value_idx mp) = int n_acc
            \<and> length (keys mp') = length (keys mp)
            \<and> (\<forall>i < length (keys mp). i \<noteq> last_draft_key_idx mp
                  \<longrightarrow> keys mp' ! i = keys mp ! i)
            \<and> key_idx (keys mp' ! last_draft_key_idx mp)
                = key_idx (keys mp ! last_draft_key_idx mp)
            \<and> stat_idx (keys mp' ! last_draft_key_idx mp)
                = stat_idx (keys mp ! last_draft_key_idx mp)
            \<and> key_num (keys mp' ! last_draft_key_idx mp)
                = key_num (keys mp ! last_draft_key_idx mp)
            \<and> (\<forall>v < length (key_values (keys mp ! last_draft_key_idx mp)).
                  value_idx (key_values (keys mp' ! last_draft_key_idx mp) ! v)
                    = value_idx (key_values (keys mp ! last_draft_key_idx mp) ! v)
                  \<and> value_num (key_values (keys mp' ! last_draft_key_idx mp) ! v)
                    = value_num (key_values (keys mp ! last_draft_key_idx mp) ! v)
                  \<and> (v \<noteq> last_draft_value_idx mp \<longrightarrow>
                        key_values (keys mp' ! last_draft_key_idx mp) ! v
                          = key_values (keys mp ! last_draft_key_idx mp) ! v))))"
proof (intro conjI impI)
  assume "\<not> last_draft_created mp"
  then show "common_ngram_map_accept mp n_acc = Some mp" by (rule accept_none)
next
  assume a: "common_ngram_map_draft mp0 inp sampled = Some (mp, d)
        \<and> (length inp < 2 * size_key mp0 + size_value mp0
           \<or> length inp < idx_last_check mp0 + check_rate mp0
           \<or> map_match_pos (size_key mp0) (size_value mp0) inp sampled = Some 0
           \<or> key_only mp0
           \<or> (\<exists>ko. find_key inp (map_key_tokens (size_key mp0) inp sampled) (keys mp0) 0
                      = Some ko
                  \<and> (key_num (keys mp ! ko) < min_hits mp0
                     \<or> gate_rejects (key_values (keys mp ! ko)))))"
  have n: "\<not> last_draft_created mp"
  proof
    assume c: "last_draft_created mp"
    from a have res: "common_ngram_map_draft mp0 inp sampled = Some (mp, d)" by simp
    from map_draft_created [OF res c] a show False by auto
  qed
  then show "\<not> last_draft_created mp" .
  from n show "common_ngram_map_accept mp n_acc = Some mp" by (rule accept_none)
next
  assume a: "common_ngram_map_draft mp0 inp sampled = Some (mp, d) \<and> last_draft_created mp"
  then have res: "common_ngram_map_draft mp0 inp sampled = Some (mp, d)"
    and c: "last_draft_created mp" by simp_all
  from map_draft_created [OF res c]
  show "last_draft_key_idx mp < length (keys mp)"
    and "last_draft_value_idx mp < COMMON_NGRAM_MAX_VALUES"
    by simp_all
next
  let ?ki = "last_draft_key_idx mp" and ?vi = "last_draft_value_idx mp"
  assume a: "last_draft_created mp \<and> ?ki < length (keys mp)
      \<and> ?vi < COMMON_NGRAM_MAX_VALUES \<and> ?vi < length (key_values (keys mp ! ?ki))"
  then have acc: "common_ngram_map_accept mp n_acc =
     Some (mp\<lparr>keys := (keys mp)[?ki := (keys mp ! ?ki)\<lparr>key_values :=
           (key_values (keys mp ! ?ki))[?vi :=
              (key_values (keys mp ! ?ki) ! ?vi)\<lparr>n_accepted := int n_acc\<rparr>]\<rparr>]\<rparr>)"
    by (intro accept_overwrites) simp_all
  show "\<exists>mp'. common_ngram_map_accept mp n_acc = Some mp'
            \<and> mp' = mp\<lparr>keys := (keys mp)[?ki :=
                  (keys mp ! ?ki)\<lparr>key_values :=
                    (key_values (keys mp ! ?ki))[?vi :=
                      (key_values (keys mp ! ?ki) ! ?vi)
                        \<lparr>n_accepted := int n_acc\<rparr>]\<rparr>]\<rparr>
            \<and> n_accepted (key_values (keys mp' ! ?ki) ! ?vi) = int n_acc
            \<and> length (keys mp') = length (keys mp)
            \<and> (\<forall>i < length (keys mp). i \<noteq> ?ki \<longrightarrow> keys mp' ! i = keys mp ! i)
            \<and> key_idx (keys mp' ! ?ki) = key_idx (keys mp ! ?ki)
            \<and> stat_idx (keys mp' ! ?ki) = stat_idx (keys mp ! ?ki)
            \<and> key_num (keys mp' ! ?ki) = key_num (keys mp ! ?ki)
            \<and> (\<forall>v < length (key_values (keys mp ! ?ki)).
                  value_idx (key_values (keys mp' ! ?ki) ! v)
                    = value_idx (key_values (keys mp ! ?ki) ! v)
                  \<and> value_num (key_values (keys mp' ! ?ki) ! v)
                    = value_num (key_values (keys mp ! ?ki) ! v)
                  \<and> (v \<noteq> ?vi \<longrightarrow>
                        key_values (keys mp' ! ?ki) ! v = key_values (keys mp ! ?ki) ! v))"
    using a unfolding acc by (auto simp: nth_list_update)
qed

theorem accept_feedback_witness:
  "common_ngram_map_draft ex_map [1, 2] 2 = Some (ex_map, [])
   \<and> common_ngram_map_accept ex_map 1 = Some ex_map
   \<and> common_ngram_map_draft (ex_map\<lparr>key_only := True\<rparr>) [9, 1, 2, 3, 4] 1
       = Some (ex_map\<lparr>key_only := True, idx_last_check := 5,
                 keys := [(new_key 1 1)\<lparr>key_num := 1\<rparr>]\<rparr>, [2])
   \<and> common_ngram_map_draft ex_map [9, 1, 2, 3, 4] 1 = Some (ex_map_after, [2])
   \<and> last_draft_created ex_map_after
   \<and> common_ngram_map_accept ex_map_after 0 = Some ex_map_zero"
proof -
  have d1: "common_ngram_map_draft ex_map [1, 2] 2 = Some (ex_map, [])"
    by (simp add: ex_map_def ev)
  have g1: "length [1, 2 :: int] < 2 * size_key ex_map + size_value ex_map"
    by (simp add: ex_map_def)
  have d2: "common_ngram_map_draft ex_map [9, 1, 2, 3, 4] 1 = Some (ex_map_after, [2])"
    by (simp add: ex_map_after_def ex_map_def ex_key_def ev)
  have d3: "common_ngram_map_draft (ex_map\<lparr>key_only := True\<rparr>) [9, 1, 2, 3, 4] 1
       = Some (ex_map\<lparr>key_only := True, idx_last_check := 5,
                 keys := [(new_key 1 1)\<lparr>key_num := 1\<rparr>]\<rparr>, [2])"
    by (simp add: ex_map_def ev)
  have c: "last_draft_created ex_map_after
      \<and> last_draft_key_idx ex_map_after < length (keys ex_map_after)
      \<and> last_draft_value_idx ex_map_after < COMMON_NGRAM_MAX_VALUES
      \<and> last_draft_value_idx ex_map_after
          < length (key_values (keys ex_map_after ! last_draft_key_idx ex_map_after))"
    by (simp add: ex_map_after_def ex_map_def ex_key_def COMMON_NGRAM_MAX_VALUES_def)
  have e: "common_ngram_map_accept ex_map_after 0 = Some ex_map_zero"
    by (simp add: ex_map_zero_def ex_map_after_def ex_map_def ex_key_def ev)
  show ?thesis
    using accept_feedback [of ex_map 1 ex_map "[1, 2]" 2 "[]"]
      accept_feedback [of ex_map_after 0 ex_map "[9, 1, 2, 3, 4]" 1 "[2]"]
      d1 g1 d2 d3 c e
    by simp
qed

text \<open>
  C7 as it was stated fails for "a call after an empty draft". After a
  feedback of 0 accepted tokens (\<open>n_accepted = 0\<close>), the next draft for the same key
  passes the gate with length \<open>min 1 0 = 0\<close>: the draft is empty and yet recorded,
  and a feedback call after it changes the cache.
\<close>

theorem empty_draft_recorded_counterexample:
  "common_ngram_map_draft ex_map [9, 1, 2, 3, 4] 1 = Some (ex_map_after, [2])
   \<and> common_ngram_map_accept ex_map_after 0 = Some ex_map_zero
   \<and> common_ngram_map_draft ex_map_zero [9, 1, 2, 3, 4, 1, 2, 3, 4] 1
       = Some (ex_map_empty_draft, [])
   \<and> last_draft_created ex_map_empty_draft
   \<and> common_ngram_map_accept ex_map_empty_draft 1 \<noteq> Some ex_map_empty_draft"
  by (simp add: ex_map_empty_draft_def ex_map_zero_def ex_map_after_def ex_map_def
      ex_key_def ev)

section \<open>Saturating counters\<close>

lemma count_inc_le: "count_inc c \<le> COMMON_NGRAM_MAX_VALUE_COUNT"
  by (simp add: count_inc_def)

lemma count_inc_funpow:
  "c \<le> COMMON_NGRAM_MAX_VALUE_COUNT \<Longrightarrow>
     (count_inc ^^ k) c = min (c + k) COMMON_NGRAM_MAX_VALUE_COUNT"
  by (induction k) (auto simp: count_inc_def)

lemma find_value_result:
  "find_value inp m b vals u = Some (vals', r) \<Longrightarrow>
     (r = - 1 \<and> vals' = vals)
     \<or> (\<exists>v. r = int v \<and> u \<le> v \<and> v < COMMON_NGRAM_MAX_VALUES
           \<and> (vals' = vals \<and> value_idx (vals ! v) \<noteq> 0
                \<and> mgram_eq inp b (value_idx (vals ! v)) m = Some True
              \<or> value_idx (vals ! v) = 0
                \<and> vals' = vals[v := (vals ! v)\<lparr>value_idx := b, value_num := 0,
                                               n_accepted := int m\<rparr>]))"
proof (induction inp m b vals u rule: find_value.induct)
  case (1 inp m b vals v)
  show ?case
  proof (cases "v < COMMON_NGRAM_MAX_VALUES")
    case False
    with "1.prems" show ?thesis by (simp add: find_value.simps [of inp m b vals v])
  next
    case lt: True
    show ?thesis
    proof (cases "value_idx (vals ! v) = 0")
      case True
      with lt "1.prems" show ?thesis
        by (auto simp: find_value.simps [of inp m b vals v])
    next
      case occ: False
      show ?thesis
      proof (cases "mgram_eq inp b (value_idx (vals ! v)) m")
        case None
        with lt occ "1.prems" show ?thesis
          by (simp add: find_value.simps [of inp m b vals v])
      next
        case (Some eq)
        show ?thesis
        proof (cases eq)
          case True
          with Some lt occ "1.prems" show ?thesis
            by (auto simp: find_value.simps [of inp m b vals v])
        next
          case False
          with Some lt occ "1.prems"
          have "find_value inp m b vals (Suc v) = Some (vals', r)"
            by (simp add: find_value.simps [of inp m b vals v])
          moreover have "eq = False" using False by simp
          ultimately show ?thesis
            using "1.IH" [OF lt refl occ Some]
            by (auto simp: Suc_le_eq intro: less_imp_le)
        qed
      qed
    qed
  qed
qed

lemma list_all_update:
  "list_all P xs \<Longrightarrow> P y \<Longrightarrow> list_all P (xs[i := y])"
  by (induction xs arbitrary: i) (auto split: nat.splits)

lemma list_all_nth: "list_all P xs \<Longrightarrow> i < length xs \<Longrightarrow> P (xs ! i)"
  by (simp add: list_all_length)

lemma find_value_capped:
  assumes "find_value inp m b vals u = Some (vals', r)" and "slots_capped vals"
  shows "slots_capped vals'"
  using find_value_result [OF assms(1)] assms(2)
  by (auto simp: slots_capped_def intro!: list_all_update)

lemma stat_occurrence_capped:
  assumes "stat_occurrence inp n m i vals = Some vals'" and "slots_capped vals"
  shows "slots_capped vals'"
proof -
  from assms(1) obtain vals1 r where fv: "find_value inp m (i + n) vals 0 = Some (vals1, r)"
    and res: "vals' = (if r \<ge> 0
        then vals1[nat r := (vals1 ! nat r)\<lparr>value_num :=
               count_inc (value_num (vals1 ! nat r))\<rparr>]
        else vals1)"
    by (auto simp: stat_occurrence_def split: option.splits if_splits)
  have "slots_capped vals1" using fv assms(2) by (rule find_value_capped)
  then show ?thesis
    unfolding res slots_capped_def
    by (auto intro!: list_all_update simp: count_inc_le)
qed

lemma stat_loop_capped:
  "stat_loop inp key_tokens n m match_pos i vals = Some vals' \<Longrightarrow> slots_capped vals
     \<Longrightarrow> slots_capped vals'"
proof (induction inp key_tokens n m match_pos i vals rule: stat_loop.induct)
  case (1 inp key_tokens n m match_pos i vals)
  show ?case
  proof (cases "i \<le> match_pos")
    case False
    with "1.prems" show ?thesis
      by (simp add: stat_loop.simps [of inp key_tokens n m match_pos i vals])
  next
    case le: True
    show ?thesis
    proof (cases "window_eq inp i key_tokens")
      case None
      with le "1.prems" show ?thesis
        by (simp add: stat_loop.simps [of inp key_tokens n m match_pos i vals])
    next
      case (Some eq)
      show ?thesis
      proof (cases eq)
        case False
        then have e: "eq = False" by simp
        with Some le "1.prems"
        have "stat_loop inp key_tokens n m match_pos (Suc i) vals = Some vals'"
          by (simp add: stat_loop.simps [of inp key_tokens n m match_pos i vals])
        from "1.IH"(2) [OF le Some e this "1.prems"(2)] show ?thesis .
      next
        case True
        then have e: "eq = True" by simp
        with Some le "1.prems" obtain vals1
          where so: "stat_occurrence inp n m i vals = Some vals1"
            and rest: "stat_loop inp key_tokens n m match_pos (Suc i) vals1 = Some vals'"
          by (auto simp: stat_loop.simps [of inp key_tokens n m match_pos i vals]
              split: option.splits)
        have "slots_capped vals1" using so "1.prems"(2) by (rule stat_occurrence_capped)
        from "1.IH"(1) [OF le Some e so rest this] show ?thesis .
      qed
    qed
  qed
qed

lemma new_key_capped:
  "key_num (new_key p m) \<le> COMMON_NGRAM_MAX_VALUE_COUNT \<and> slots_capped (key_values (new_key p m))"
  by (simp add: new_key_def new_value_def slots_capped_def slots_replicate)

lemma draft_at_match_capped:
  assumes res: "draft_at_match mp inp key_tokens match_pos = Some (mp', d)"
    and ok: "counters_capped mp"
  shows "counters_capped mp'"
proof -
  let ?P = "\<lambda>k. key_num k \<le> COMMON_NGRAM_MAX_VALUE_COUNT \<and> slots_capped (key_values k)"
  obtain ko where ko: "find_key inp key_tokens (keys mp) 0 = Some ko"
    using res
    by (cases "find_key inp key_tokens (keys mp) 0") (auto simp: draft_at_match_def Let_def)
  define keys1 where "keys1 = (if ko = length (keys mp)
      then keys mp @ [new_key match_pos (size_value mp)] else keys mp)"
  define curr_key where "curr_key = (keys1 ! ko)\<lparr>key_num := count_inc (key_num (keys1 ! ko))\<rparr>"
  have lt: "ko < length keys1"
    unfolding keys1_def using ko by (rule find_key_offset)
  have all1: "list_all ?P keys1"
    using ok new_key_capped by (simp add: keys1_def counters_capped_def)
  then have "?P (keys1 ! ko)" using lt by (rule list_all_nth)
  then have cur: "slots_capped (key_values curr_key)"
    by (simp add: curr_key_def)
  have upd: "\<And>vals. slots_capped vals \<Longrightarrow>
      list_all ?P (keys1[ko := curr_key\<lparr>key_values := vals, stat_idx := match_pos\<rparr>])"
    using all1 by (intro list_all_update) (simp_all add: curr_key_def count_inc_le)
  have upd0: "list_all ?P (keys1[ko := curr_key])"
    using all1 cur by (intro list_all_update) (simp_all add: curr_key_def count_inc_le)
  have loop: "\<And>vals. stat_loop inp key_tokens (size_key mp) (size_value mp) match_pos
        (stat_idx curr_key) (key_values curr_key) = Some vals \<Longrightarrow> slots_capped vals"
    using cur by (rule stat_loop_capped [rotated])
  show ?thesis
    using res upd upd0 loop
    by (auto simp: draft_at_match_def ko Let_def keys1_def [symmetric] curr_key_def [symmetric]
        counters_capped_def split: option.splits if_splits)
qed

lemma map_draft_capped:
  assumes "common_ngram_map_draft mp inp sampled = Some (mp', d)" and "counters_capped mp"
  shows "counters_capped mp'"
proof -
  have c: "\<And>a b c e. counters_capped (mp\<lparr>last_draft_created := a, last_draft_key_idx := b,
      last_draft_value_idx := c, idx_last_check := e\<rparr>)"
    "\<And>a b c. counters_capped (mp\<lparr>last_draft_created := a, last_draft_key_idx := b,
      last_draft_value_idx := c\<rparr>)"
    using assms(2) by (simp_all add: counters_capped_def)
  show ?thesis
    using assms(1) c
    by (auto simp: common_ngram_map_draft_def Let_def split: option.splits if_splits
        dest: draft_at_match_capped)
qed

lemma accept_capped:
  assumes "common_ngram_map_accept mp n_acc = Some mp'" and "counters_capped mp"
  shows "counters_capped mp'"
proof (cases "last_draft_created mp")
  case False
  with assms show ?thesis by (simp add: common_ngram_map_accept_def)
next
  case True
  let ?P = "\<lambda>k. key_num k \<le> COMMON_NGRAM_MAX_VALUE_COUNT \<and> slots_capped (key_values k)"
  let ?ki = "last_draft_key_idx mp" and ?vi = "last_draft_value_idx mp"
  from True assms(1) have lt: "?ki < length (keys mp)"
    and res: "mp' = mp\<lparr>keys := (keys mp)[?ki := (keys mp ! ?ki)\<lparr>key_values :=
           (key_values (keys mp ! ?ki))[?vi :=
              (key_values (keys mp ! ?ki) ! ?vi)\<lparr>n_accepted := int n_acc\<rparr>]\<rparr>]\<rparr>"
      and lv: "?vi < length (key_values (keys mp ! ?ki))"
    by (auto simp: common_ngram_map_accept_def Let_def split: if_splits)
  have all: "list_all ?P (keys mp)" using assms(2) by (simp add: counters_capped_def)
  then have k: "?P (keys mp ! ?ki)" using lt by (rule list_all_nth)
  then have "list_all (\<lambda>x. value_num x \<le> COMMON_NGRAM_MAX_VALUE_COUNT)
      (key_values (keys mp ! ?ki))" by (simp add: slots_capped_def)
  then have "value_num (key_values (keys mp ! ?ki) ! ?vi) \<le> COMMON_NGRAM_MAX_VALUE_COUNT"
    using lv by (rule list_all_nth)
  with k have "slots_capped ((key_values (keys mp ! ?ki))[?vi :=
              (key_values (keys mp ! ?ki) ! ?vi)\<lparr>n_accepted := int n_acc\<rparr>])"
    unfolding slots_capped_def by (intro list_all_update) simp_all
  with k all show ?thesis
    unfolding res counters_capped_def by (simp add: list_all_update)
qed

lemma run_calls_capped:
  "run_calls mp cs = Some mp' \<Longrightarrow> counters_capped mp \<Longrightarrow> counters_capped mp'"
proof (induction mp cs rule: run_calls.induct)
  case (1 mp)
  then show ?case by simp
next
  case (2 mp inp sampled cs)
  then show ?case
    by (auto split: option.splits dest: map_draft_capped)
next
  case (3 mp n_acc cs)
  then show ?case
    by (auto split: option.splits dest: accept_capped)
qed

lemma find_value_matches:
  assumes "v < COMMON_NGRAM_MAX_VALUES"
    and "value_idx (vals ! v) \<noteq> 0"
    and "mgram_eq inp b (value_idx (vals ! v)) m = Some True"
    and "\<forall>u. u0 \<le> u \<and> u < v \<longrightarrow>
           value_idx (vals ! u) \<noteq> 0 \<and> mgram_eq inp b (value_idx (vals ! u)) m = Some False"
    and "u0 \<le> v"
  shows "find_value inp m b vals u0 = Some (vals, int v)"
  using assms
proof (induction "v - u0" arbitrary: u0)
  case 0
  then have "u0 = v" by simp
  with "0.prems"(1,2,3) show ?case
    by (simp add: find_value.simps [of inp m b vals v])
next
  case (Suc k)
  then have lt: "u0 < v" by simp
  with Suc.prems(4) have occ: "value_idx (vals ! u0) \<noteq> 0"
    and ne: "mgram_eq inp b (value_idx (vals ! u0)) m = Some False"
    by auto
  have "find_value inp m b vals (Suc u0) = Some (vals, int v)"
  proof (rule Suc.hyps(1))
    show "k = v - Suc u0" using Suc.hyps(2) by simp
    show "v < COMMON_NGRAM_MAX_VALUES" by (rule Suc.prems(1))
    show "value_idx (vals ! v) \<noteq> 0" by (rule Suc.prems(2))
    show "mgram_eq inp b (value_idx (vals ! v)) m = Some True" by (rule Suc.prems(3))
    show "\<forall>u. Suc u0 \<le> u \<and> u < v \<longrightarrow>
           value_idx (vals ! u) \<noteq> 0 \<and> mgram_eq inp b (value_idx (vals ! u)) m = Some False"
      using Suc.prems(4) by simp
    show "Suc u0 \<le> v" using lt by simp
  qed
  moreover have "u0 < COMMON_NGRAM_MAX_VALUES" using lt Suc.prems(1) by simp
  ultimately show ?case
    using occ ne by (simp add: find_value.simps [of inp m b vals u0])
qed

lemma stat_occurrence_matches:
  assumes v: "v < COMMON_NGRAM_MAX_VALUES"
    and occ: "value_idx (vals ! v) \<noteq> 0"
    and eq: "mgram_eq inp (i + n) (value_idx (vals ! v)) m = Some True"
    and before: "\<forall>u < v. value_idx (vals ! u) \<noteq> 0
                   \<and> mgram_eq inp (i + n) (value_idx (vals ! u)) m = Some False"
  shows "stat_occurrence inp n m i vals =
     Some (vals[v := (vals ! v)\<lparr>value_num := count_inc (value_num (vals ! v))\<rparr>])"
proof -
  have "find_value inp m (i + n) vals 0 = Some (vals, int v)"
    using v occ eq before by (intro find_value_matches) auto
  then show ?thesis by (simp add: stat_occurrence_def)
qed

lemma draft_at_match_key_num:
  assumes res: "draft_at_match mp inp key_tokens match_pos = Some (mp', d)"
    and i: "i < length (keys mp)"
  shows "key_num (keys mp' ! i) =
     (if find_key inp key_tokens (keys mp) 0 = Some i
      then count_inc (key_num (keys mp ! i)) else key_num (keys mp ! i))"
proof -
  obtain ko where ko: "find_key inp key_tokens (keys mp) 0 = Some ko"
    using res
    by (cases "find_key inp key_tokens (keys mp) 0") (auto simp: draft_at_match_def Let_def)
  define keys1 where "keys1 = (if ko = length (keys mp)
      then keys mp @ [new_key match_pos (size_value mp)] else keys mp)"
  have lt: "i < length keys1" and same: "keys1 ! i = keys mp ! i"
    using i by (auto simp: keys1_def nth_append)
  show ?thesis
    using res lt same
    by (auto simp: draft_at_match_def ko Let_def keys1_def [symmetric] nth_list_update
        split: option.splits if_splits)
qed

section \<open>Reads within the history\<close>

lemma slots_in_bounds_nth:
  assumes "slots_in_bounds m len vals" and "v < COMMON_NGRAM_MAX_VALUES"
  shows "value_idx (vals ! v) = 0 \<or> value_idx (vals ! v) + m \<le> len"
proof -
  from assms have "v < length vals"
    and "list_all (\<lambda>x. value_idx x = 0 \<or> value_idx x + m \<le> len) vals"
    by (simp_all add: slots_in_bounds_def)
  then show ?thesis by (simp add: list_all_length)
qed

lemma slots_in_bounds_update:
  assumes "slots_in_bounds m len vals" and "value_idx y = 0 \<or> value_idx y + m \<le> len"
  shows "slots_in_bounds m len (vals[v := y])"
  using assms by (simp add: slots_in_bounds_def list_all_update)

lemma find_value_in_bounds:
  assumes "b + m \<le> length inp" and "slots_in_bounds m (length inp) vals"
  shows "\<exists>vals' r. find_value inp m b vals u = Some (vals', r)
           \<and> slots_in_bounds m (length inp) vals'"
  using assms
proof (induction inp m b vals u rule: find_value.induct)
  case (1 inp m b vals v)
  show ?case
  proof (cases "v < COMMON_NGRAM_MAX_VALUES")
    case False
    with "1.prems" show ?thesis by (simp add: find_value.simps [of inp m b vals v])
  next
    case lt: True
    show ?thesis
    proof (cases "value_idx (vals ! v) = 0")
      case True
      have "slots_in_bounds m (length inp)
          (vals[v := (vals ! v)\<lparr>value_idx := b, value_num := 0, n_accepted := int m\<rparr>])"
        using "1.prems" by (intro slots_in_bounds_update) simp_all
      with lt True show ?thesis
        by (simp add: find_value.simps [of inp m b vals v])
    next
      case occ: False
      with slots_in_bounds_nth [OF "1.prems"(2) lt]
      have "value_idx (vals ! v) + m \<le> length inp" by simp
      with "1.prems"(1) have "mgram_eq inp b (value_idx (vals ! v)) m \<noteq> None"
        by (intro mgram_eq_in_bounds)
      then obtain eq where eq: "mgram_eq inp b (value_idx (vals ! v)) m = Some eq" by auto
      show ?thesis
      proof (cases eq)
        case True
        with eq lt occ "1.prems"(2) show ?thesis
          by (simp add: find_value.simps [of inp m b vals v])
      next
        case False
        then have e: "eq = False" by simp
        from "1.IH" [OF lt refl occ eq e "1.prems"] eq e lt occ show ?thesis
          by (simp add: find_value.simps [of inp m b vals v])
      qed
    qed
  qed
qed

lemma stat_occurrence_in_bounds:
  assumes "i + n + m \<le> length inp" and "slots_in_bounds m (length inp) vals"
  shows "\<exists>vals'. stat_occurrence inp n m i vals = Some vals'
           \<and> slots_in_bounds m (length inp) vals'"
proof -
  obtain vals1 r where fv: "find_value inp m (i + n) vals 0 = Some (vals1, r)"
    and ok: "slots_in_bounds m (length inp) vals1"
    using find_value_in_bounds [OF assms] by blast
  have r: "r = - 1 \<or> (\<exists>v. r = int v \<and> v < COMMON_NGRAM_MAX_VALUES)"
    using find_value_result [OF fv] by auto
  show ?thesis
  proof (cases "r \<ge> 0")
    case False
    with fv ok show ?thesis by (simp add: stat_occurrence_def)
  next
    case True
    with r obtain v where v: "r = int v" "v < COMMON_NGRAM_MAX_VALUES" by auto
    have "slots_in_bounds m (length inp)
        (vals1[v := (vals1 ! v)\<lparr>value_num := count_inc (value_num (vals1 ! v))\<rparr>])"
      using ok slots_in_bounds_nth [OF ok v(2)] by (intro slots_in_bounds_update) simp_all
    with fv v show ?thesis by (simp add: stat_occurrence_def)
  qed
qed

lemma stat_loop_in_bounds:
  assumes "match_pos + n + m \<le> length inp" and "length key_tokens = n"
    and "slots_in_bounds m (length inp) vals"
  shows "\<exists>vals'. stat_loop inp key_tokens n m match_pos i vals = Some vals'
           \<and> slots_in_bounds m (length inp) vals'"
  using assms
proof (induction inp key_tokens n m match_pos i vals rule: stat_loop.induct)
  case (1 inp key_tokens n m match_pos i vals)
  show ?case
  proof (cases "i \<le> match_pos")
    case False
    with "1.prems" show ?thesis
      by (simp add: stat_loop.simps [of inp key_tokens n m match_pos i vals])
  next
    case le: True
    then have "i + length key_tokens \<le> length inp" using "1.prems" by simp
    then have "window_eq inp i key_tokens \<noteq> None" by (rule window_eq_in_bounds)
    then obtain eq where eq: "window_eq inp i key_tokens = Some eq" by auto
    show ?thesis
    proof (cases eq)
      case False
      then have e: "eq = False" by simp
      from "1.IH"(2) [OF le eq e "1.prems"] eq e le show ?thesis
        by (simp add: stat_loop.simps [of inp key_tokens n m match_pos i vals])
    next
      case True
      then have e: "eq = True" by simp
      have "i + n + m \<le> length inp" using le "1.prems"(1) by simp
      then obtain vals1 where so: "stat_occurrence inp n m i vals = Some vals1"
        and ok: "slots_in_bounds m (length inp) vals1"
        using stat_occurrence_in_bounds "1.prems"(3) by blast
      from "1.IH"(1) [OF le eq e so "1.prems"(1,2) ok] eq e le so show ?thesis
        by (simp add: stat_loop.simps [of inp key_tokens n m match_pos i vals])
    qed
  qed
qed

lemma find_key_in_bounds:
  assumes "list_all (\<lambda>k. key_idx k + length key_tokens \<le> length inp) ks"
  shows "find_key inp key_tokens ks i \<noteq> None"
  using assms
proof (induction ks arbitrary: i)
  case Nil
  then show ?case by simp
next
  case (Cons k ks)
  then have "window_eq inp (key_idx k) key_tokens \<noteq> None"
    by (intro window_eq_in_bounds) simp
  then obtain eq where "window_eq inp (key_idx k) key_tokens = Some eq" by auto
  with Cons show ?case by (cases eq) auto
qed

lemma new_key_in_bounds:
  "slots_in_bounds m len (key_values (new_key p m))"
  by (simp add: new_key_def new_value_def slots_in_bounds_def list_all_iff)

lemma draft_at_match_in_bounds:
  assumes inv: "anchors_in_bounds mp (length inp)"
    and fresh: "\<not> last_draft_created mp"
    and key: "length key_tokens = size_key mp"
    and pos: "match_pos + size_key mp + size_value mp \<le> length inp"
    and max: "match_pos \<noteq> SIZE_MAX"
  shows "\<exists>mp' d. draft_at_match mp inp key_tokens match_pos = Some (mp', d)
           \<and> anchors_in_bounds mp' (length inp)"
proof -
  let ?n = "size_key mp" and ?m = "size_value mp" and ?len = "length inp"
  let ?P = "\<lambda>k. key_idx k + ?n \<le> ?len \<and> slots_in_bounds ?m ?len (key_values k)"
  have all: "list_all ?P (keys mp)" using inv by (simp add: anchors_in_bounds_def)
  then have "list_all (\<lambda>k. key_idx k + length key_tokens \<le> ?len) (keys mp)"
    by (simp add: key list_all_iff)
  then have "find_key inp key_tokens (keys mp) 0 \<noteq> None" by (rule find_key_in_bounds)
  then obtain ko where ko: "find_key inp key_tokens (keys mp) 0 = Some ko" by auto
  define keys1 where "keys1 = (if ko = length (keys mp)
      then keys mp @ [new_key match_pos ?m] else keys mp)"
  define curr_key where "curr_key = (keys1 ! ko)\<lparr>key_num := count_inc (key_num (keys1 ! ko))\<rparr>"
  have lt: "ko < length keys1"
    unfolding keys1_def using ko by (rule find_key_offset)
  have "?P (new_key match_pos ?m)"
    using pos new_key_in_bounds [of ?m ?len match_pos] by (simp add: new_key_def)
  then have all1: "list_all ?P keys1" using all by (simp add: keys1_def)
  then have "?P (keys1 ! ko)" using lt by (rule list_all_nth)
  then have cur: "key_idx curr_key + ?n \<le> ?len"
    "slots_in_bounds ?m ?len (key_values curr_key)"
    by (simp_all add: curr_key_def)
  have upd0: "list_all ?P (keys1[ko := curr_key])"
    using all1 cur by (intro list_all_update) simp_all
  have upd: "\<And>vals. slots_in_bounds ?m ?len vals \<Longrightarrow>
      list_all ?P (keys1[ko := curr_key\<lparr>key_values := vals, stat_idx := match_pos\<rparr>])"
    using all1 cur by (intro list_all_update) simp_all
  obtain vals where loop: "stat_loop inp key_tokens ?n ?m match_pos (stat_idx curr_key)
      (key_values curr_key) = Some vals" and vals: "slots_in_bounds ?m ?len vals"
    using stat_loop_in_bounds [OF pos key cur(2)] by blast
  have copy: "\<And>a. copy_tokens inp (match_pos + ?n) (nat (min (int ?m) a))
      = Some (take (nat (min (int ?m) a)) (drop (match_pos + ?n) inp))"
    using pos by (intro copy_tokens_in_bounds) auto
  show ?thesis
    using fresh max lt upd0 upd [OF vals] select_max_slot_less [of vals]
    by (simp add: draft_at_match_def ko Let_def keys1_def [symmetric] curr_key_def [symmetric]
        loop copy anchors_in_bounds_def)
qed

lemma anchors_in_bounds_mono:
  assumes "anchors_in_bounds mp len" and "len \<le> len'"
  shows "anchors_in_bounds mp len'"
proof -
  have "\<And>k. key_idx k + size_key mp \<le> len
        \<and> slots_in_bounds (size_value mp) len (key_values k)
      \<Longrightarrow> key_idx k + size_key mp \<le> len'
        \<and> slots_in_bounds (size_value mp) len' (key_values k)"
    using assms(2) by (auto simp: slots_in_bounds_def list_all_iff)
  then show ?thesis
    using assms(1) by (auto simp: anchors_in_bounds_def list_all_iff)
qed

lemma map_draft_frame:
  assumes "common_ngram_map_draft mp inp sampled = Some (mp', d)"
  shows "size_key mp' = size_key mp \<and> size_value mp' = size_value mp"
  using assms
  by (auto simp: common_ngram_map_draft_def Let_def split: option.splits if_splits
      dest!: draft_at_match_frame)

lemma accept_frame:
  assumes "common_ngram_map_accept mp n_acc = Some mp'"
  shows "size_key mp' = size_key mp \<and> size_value mp' = size_value mp"
  using assms
  by (auto simp: common_ngram_map_accept_def Let_def split: if_splits)

lemma map_draft_in_bounds:
  assumes n: "1 \<le> size_key mp"
    and inv: "anchors_in_bounds mp (length inp)"
    and size: "length inp \<le> SIZE_MAX"
  shows "\<exists>mp' d. common_ngram_map_draft mp inp sampled = Some (mp', d)
           \<and> anchors_in_bounds mp' (length inp)"
proof -
  let ?n = "size_key mp" and ?m = "size_value mp"
  let ?mp0 = "mp\<lparr>last_draft_created := False, last_draft_key_idx := 0,
                 last_draft_value_idx := 0\<rparr>"
  let ?mp1 = "?mp0\<lparr>idx_last_check := length inp\<rparr>"
  have inv0: "anchors_in_bounds ?mp0 (length inp)" and inv1: "anchors_in_bounds ?mp1 (length inp)"
    using inv by (simp_all add: anchors_in_bounds_def)
  show ?thesis
  proof (cases "length inp < 2 * ?n + ?m \<or> length inp < idx_last_check mp + check_rate mp")
    case True
    then show ?thesis using inv0 by (simp add: map_draft_rejected_early)
  next
    case False
    then have guard: "2 * ?n + ?m \<le> length inp"
      and throttle: "idx_last_check mp + check_rate mp \<le> length inp" by simp_all
    obtain r where r: "map_match_pos ?n ?m inp sampled = Some r"
      and le: "r \<le> size_t_sub (size_t_sub (size_t_sub (length inp) ?n) ?m) 1"
      using map_match_pos_Some [OF guard] by blast
    from le have le': "r \<le> length inp - ?n - ?m - 1"
      using map_search_start [OF guard n] by simp
    show ?thesis
    proof (cases "r = 0")
      case True
      with r guard throttle inv1 show ?thesis
        by (simp add: common_ngram_map_draft_def Let_def)
    next
      case False
      have pos: "r + size_key ?mp1 + size_value ?mp1 \<le> length inp"
        using le' guard n by simp
      then have "r < SIZE_MAX" using size n by simp
      then have max: "r \<noteq> SIZE_MAX" by simp
      have key: "length (map_key_tokens ?n inp sampled) = size_key ?mp1"
        using guard by (simp add: map_key_tokens_length)
      have fresh: "\<not> last_draft_created ?mp1" by simp
      from draft_at_match_in_bounds [OF inv1 fresh key pos max]
      show ?thesis
        using False r guard throttle by (simp add: common_ngram_map_draft_def Let_def)
    qed
  qed
qed

lemma accept_in_bounds:
  assumes inv: "anchors_in_bounds mp len"
  shows "\<exists>mp'. common_ngram_map_accept mp n_acc = Some mp' \<and> anchors_in_bounds mp' len"
proof (cases "last_draft_created mp")
  case False
  with inv show ?thesis by (simp add: common_ngram_map_accept_def)
next
  case True
  let ?ki = "last_draft_key_idx mp" and ?vi = "last_draft_value_idx mp"
  let ?P = "\<lambda>k. key_idx k + size_key mp \<le> len
      \<and> slots_in_bounds (size_value mp) len (key_values k)"
  from True inv have ki: "?ki < length (keys mp)" and vi: "?vi < COMMON_NGRAM_MAX_VALUES"
    and all: "list_all ?P (keys mp)"
    by (simp_all add: anchors_in_bounds_def)
  from all ki have k: "?P (keys mp ! ?ki)" by (rule list_all_nth)
  then have len: "length (key_values (keys mp ! ?ki)) = COMMON_NGRAM_MAX_VALUES"
    by (simp add: slots_in_bounds_def)
  have "slots_in_bounds (size_value mp) len ((key_values (keys mp ! ?ki))[?vi :=
      (key_values (keys mp ! ?ki) ! ?vi)\<lparr>n_accepted := int n_acc\<rparr>])"
    using k slots_in_bounds_nth [of "size_value mp" len "key_values (keys mp ! ?ki)" ?vi] vi
    by (intro slots_in_bounds_update) simp_all
  with k have "list_all ?P ((keys mp)[?ki := (keys mp ! ?ki)\<lparr>key_values :=
      (key_values (keys mp ! ?ki))[?vi :=
        (key_values (keys mp ! ?ki) ! ?vi)\<lparr>n_accepted := int n_acc\<rparr>]\<rparr>])"
    using all by (intro list_all_update) simp_all
  then show ?thesis
    using True ki vi len
    by (simp add: common_ngram_map_accept_def Let_def anchors_in_bounds_def)
qed

lemma run_calls_in_bounds:
  assumes "1 \<le> size_key mp" and "anchors_in_bounds mp (length h)" and "histories_grow h cs"
  shows "\<exists>mp'. run_calls mp cs = Some mp'
           \<and> anchors_in_bounds mp' (length (last_history h cs))"
  using assms
proof (induction cs arbitrary: mp h)
  case Nil
  then show ?case by simp
next
  case (Cons c cs)
  show ?case
  proof (cases c)
    case (Draft inp sampled)
    with Cons.prems(3) have size: "length inp \<le> SIZE_MAX"
      and pre: "take (length h) inp = h" and grow: "histories_grow inp cs"
      by simp_all
    have "length (take (length h) inp) \<le> length inp" by simp
    then have "length h \<le> length inp" unfolding pre .
    with Cons.prems(2) have "anchors_in_bounds mp (length inp)"
      by (rule anchors_in_bounds_mono)
    then obtain mp1 d where d: "common_ngram_map_draft mp inp sampled = Some (mp1, d)"
      and inv1: "anchors_in_bounds mp1 (length inp)"
      using map_draft_in_bounds [OF Cons.prems(1) _ size] by blast
    have "1 \<le> size_key mp1" using map_draft_frame [OF d] Cons.prems(1) by simp
    from Cons.IH [OF this inv1 grow] d Draft show ?thesis by simp
  next
    case (Accept n_acc)
    with Cons.prems(3) have grow: "histories_grow h cs" by simp
    obtain mp1 where a: "common_ngram_map_accept mp n_acc = Some mp1"
      and inv1: "anchors_in_bounds mp1 (length h)"
      using accept_in_bounds [OF Cons.prems(2)] by blast
    have "1 \<le> size_key mp1" using accept_frame [OF a] Cons.prems(1) by simp
    from Cons.IH [OF this inv1 grow] a Accept show ?thesis by simp
  qed
qed

lemma empty_cache_in_bounds:
  "keys mp = [] \<Longrightarrow> \<not> last_draft_created mp \<Longrightarrow> anchors_in_bounds mp len"
  by (simp add: anchors_in_bounds_def)

text \<open>
  C9. Every counter of the cache saturates at the cap 16380. From a cache whose
  counters (\<open>key_num\<close> of every key entry, \<open>value_num\<close> of every slot) are at most
  the cap, any sequence of draft and feedback calls leads to a cache whose counters
  are at most the cap; and on a growing history, from a cache with \<open>n \<ge> 1\<close> whose
  anchors lie in the history, every such sequence does lead to a cache. A hit of a
  key entry and a matching occurrence for a slot each bump the counter with
  \<open>count_inc\<close>, and \<open>k\<close> bumps of a counter \<open>c\<close> give \<open>min (c + k) 16380\<close>: a counter
  driven past the cap stays exactly at the cap.
\<close>

theorem counters_saturate:
  "COMMON_NGRAM_MAX_VALUE_COUNT = 16380
   \<and> (counters_capped mp \<and> run_calls mp cs = Some mp' \<longrightarrow> counters_capped mp')
   \<and> (counters_capped mp \<and> 1 \<le> size_key mp \<and> anchors_in_bounds mp (length h)
        \<and> histories_grow h cs
        \<longrightarrow> (\<exists>mp2. run_calls mp cs = Some mp2 \<and> counters_capped mp2))
   \<and> (c \<le> COMMON_NGRAM_MAX_VALUE_COUNT
        \<longrightarrow> (count_inc ^^ k) c = min (c + k) COMMON_NGRAM_MAX_VALUE_COUNT)
   \<and> count_inc COMMON_NGRAM_MAX_VALUE_COUNT = COMMON_NGRAM_MAX_VALUE_COUNT
   \<and> (draft_at_match mp inp key_tokens match_pos = Some (mp1, d) \<and> i < length (keys mp)
        \<longrightarrow> key_num (keys mp1 ! i) =
             (if find_key inp key_tokens (keys mp) 0 = Some i
              then count_inc (key_num (keys mp ! i)) else key_num (keys mp ! i)))
   \<and> (v < COMMON_NGRAM_MAX_VALUES \<and> value_idx (vals ! v) \<noteq> 0
        \<and> mgram_eq inp (j + n) (value_idx (vals ! v)) m = Some True
        \<and> (\<forall>u < v. value_idx (vals ! u) \<noteq> 0
               \<and> mgram_eq inp (j + n) (value_idx (vals ! u)) m = Some False)
        \<longrightarrow> stat_occurrence inp n m j vals =
             Some (vals[v := (vals ! v)\<lparr>value_num := count_inc (value_num (vals ! v))\<rparr>]))"
proof -
  have cap: "COMMON_NGRAM_MAX_VALUE_COUNT = 16380"
    by (simp add: COMMON_NGRAM_MAX_VALUE_COUNT_def)
  have inv: "counters_capped mp \<and> run_calls mp cs = Some mp' \<longrightarrow> counters_capped mp'"
    using run_calls_capped by blast
  have ret: "counters_capped mp \<and> 1 \<le> size_key mp \<and> anchors_in_bounds mp (length h)
        \<and> histories_grow h cs
        \<longrightarrow> (\<exists>mp2. run_calls mp cs = Some mp2 \<and> counters_capped mp2)"
    using run_calls_in_bounds [of mp h cs] run_calls_capped by blast
  have pow: "c \<le> COMMON_NGRAM_MAX_VALUE_COUNT
        \<longrightarrow> (count_inc ^^ k) c = min (c + k) COMMON_NGRAM_MAX_VALUE_COUNT"
    using count_inc_funpow by blast
  have top: "count_inc COMMON_NGRAM_MAX_VALUE_COUNT = COMMON_NGRAM_MAX_VALUE_COUNT"
    by (simp add: count_inc_def)
  have hit: "draft_at_match mp inp key_tokens match_pos = Some (mp1, d) \<and> i < length (keys mp)
        \<longrightarrow> key_num (keys mp1 ! i) =
             (if find_key inp key_tokens (keys mp) 0 = Some i
              then count_inc (key_num (keys mp ! i)) else key_num (keys mp ! i))"
    using draft_at_match_key_num [of mp inp key_tokens match_pos mp1 d i] by blast
  have occ: "v < COMMON_NGRAM_MAX_VALUES \<and> value_idx (vals ! v) \<noteq> 0
        \<and> mgram_eq inp (j + n) (value_idx (vals ! v)) m = Some True
        \<and> (\<forall>u < v. value_idx (vals ! u) \<noteq> 0
               \<and> mgram_eq inp (j + n) (value_idx (vals ! u)) m = Some False)
        \<longrightarrow> stat_occurrence inp n m j vals =
             Some (vals[v := (vals ! v)\<lparr>value_num := count_inc (value_num (vals ! v))\<rparr>])"
    using stat_occurrence_matches [of v vals inp j n m] by blast
  show ?thesis
    by (intro conjI) (fact cap inv ret pow top hit occ)+
qed

theorem counters_saturate_witness:
  "counters_capped ex_map_full
   \<and> anchors_in_bounds ex_map_full (length [9, 1, 2, 3, 4 :: int])
   \<and> histories_grow [9, 1, 2, 3, 4] [Draft [9, 1, 2, 3, 4] 1, Accept 1, Draft [9, 1, 2, 3, 4, 5] 1]
   \<and> run_calls ex_map_full [Draft [9, 1, 2, 3, 4] 1, Accept 1, Draft [9, 1, 2, 3, 4, 5] 1]
       = Some (ex_map_full\<lparr>idx_last_check := 6, last_draft_created := True\<rparr>)
   \<and> (count_inc ^^ 5) 16378 = 16380
   \<and> draft_at_match ex_map_full [9, 1, 2, 3, 4] [1] 1
       = Some (ex_map_full\<lparr>last_draft_created := True\<rparr>, [2])
   \<and> find_key [9, 1, 2, 3, 4] [1] (keys ex_map_full) 0 = Some 0
   \<and> key_num (keys ex_map_full ! 0) = 16380
   \<and> mgram_eq [9, 1, 2, 3, 4] (1 + 1) (value_idx (key_values (keys ex_map_full ! 0) ! 0)) 1
       = Some True
   \<and> stat_occurrence [9, 1, 2, 3, 4] 1 1 1 (key_values (keys ex_map_full ! 0))
       = Some (key_values (keys ex_map_full ! 0))"
proof -
  have cap: "counters_capped ex_map_full"
    by (simp add: counters_capped_def slots_capped_def ex_map_full_def ex_map_def ex_key_def
        new_value_def COMMON_NGRAM_MAX_VALUE_COUNT_def)
  have n: "1 \<le> size_key ex_map_full"
    by (simp add: ex_map_full_def ex_map_def)
  have anch: "anchors_in_bounds ex_map_full (length [9, 1, 2, 3, 4 :: int])"
    by (simp add: anchors_in_bounds_def slots_in_bounds_def ex_map_full_def ex_map_def
        ex_key_def new_value_def COMMON_NGRAM_MAX_VALUES_def)
  have grow: "histories_grow [9, 1, 2, 3, 4] [Draft [9, 1, 2, 3, 4] 1, Accept 1, Draft [9, 1, 2, 3, 4, 5] 1]"
    by (simp add: SIZE_MAX_def)
  have run: "run_calls ex_map_full [Draft [9, 1, 2, 3, 4] 1, Accept 1, Draft [9, 1, 2, 3, 4, 5] 1]
       = Some (ex_map_full\<lparr>idx_last_check := 6, last_draft_created := True\<rparr>)"
    by (simp add: ex_map_full_def ex_map_def ex_key_def ev)
  have le: "(16378::nat) \<le> COMMON_NGRAM_MAX_VALUE_COUNT"
    by (simp add: COMMON_NGRAM_MAX_VALUE_COUNT_def)
  have dm: "draft_at_match ex_map_full [9, 1, 2, 3, 4] [1] 1
       = Some (ex_map_full\<lparr>last_draft_created := True\<rparr>, [2])"
    by (simp add: ex_map_full_def ex_map_def ex_key_def ev)
  have i: "0 < length (keys ex_map_full)" by (simp add: ex_map_full_def)
  have fk: "find_key [9, 1, 2, 3, 4] [1] (keys ex_map_full) 0 = Some 0"
    by (simp add: ex_map_full_def ex_map_def ex_key_def ev)
  have v: "0 < COMMON_NGRAM_MAX_VALUES \<and> value_idx (key_values (keys ex_map_full ! 0) ! 0) \<noteq> 0
      \<and> mgram_eq [9, 1, 2, 3, 4] (1 + 1) (value_idx (key_values (keys ex_map_full ! 0) ! 0)) 1
          = Some True"
    by (simp add: ex_map_full_def ex_map_def ex_key_def ev)
  have kn: "key_num (keys ex_map_full ! 0) = 16380"
    by (simp add: ex_map_full_def ex_key_def)
  have so: "stat_occurrence [9, 1, 2, 3, 4] 1 1 1 (key_values (keys ex_map_full ! 0))
       = Some (key_values (keys ex_map_full ! 0))"
    by (simp add: ex_map_full_def ex_map_def ex_key_def ev)
  show ?thesis
    using counters_saturate [where mp = ex_map_full
        and cs = "[Draft [9, 1, 2, 3, 4] 1, Accept 1, Draft [9, 1, 2, 3, 4, 5] 1]"
        and mp' = "ex_map_full\<lparr>idx_last_check := 6, last_draft_created := True\<rparr>"
        and h = "[9, 1, 2, 3, 4]" and c = 16378 and k = 5
        and inp = "[9, 1, 2, 3, 4]" and key_tokens = "[1]" and match_pos = 1
        and ?mp1.0 = "ex_map_full\<lparr>last_draft_created := True\<rparr>" and d = "[2]" and i = 0
        and v = 0 and vals = "key_values (keys ex_map_full ! 0)" and j = 1 and n = 1 and m = 1]
      cap n anch grow run le dm i fk v kn so
    by (simp add: COMMON_NGRAM_MAX_VALUE_COUNT_def)
qed

text \<open>
  C10. With a key length \<open>n \<ge> 1\<close>, a draft call reads the history within its
  bounds whenever the anchors stored in the cache lie in the history: the key
  tokens of every entry and the continuation tokens of every occupied slot. The
  backward search, the comparison with the key entries, the statistics loop and the
  copy of the draft then return a result, which in this model means that no index
  read was at or beyond the length of the history. The stored anchors lie in the
  history when they were recorded by earlier draft calls on prefixes of it: the
  empty cache has no anchors, every draft call leaves the anchors within the history
  it was given, and so does every feedback call; hence no call of a sequence of
  draft and feedback calls on a growing history reads out of bounds.
\<close>

theorem draft_reads_in_bounds:
  "(1 \<le> size_key mp \<and> anchors_in_bounds mp (length inp) \<and> length inp \<le> SIZE_MAX
      \<longrightarrow> (\<exists>mp' d. common_ngram_map_draft mp inp sampled = Some (mp', d)
             \<and> anchors_in_bounds mp' (length inp)))
   \<and> (keys mp = [] \<and> \<not> last_draft_created mp \<longrightarrow> anchors_in_bounds mp 0)
   \<and> (1 \<le> size_key mp \<and> anchors_in_bounds mp (length h) \<and> histories_grow h cs
      \<longrightarrow> (\<exists>mp'. run_calls mp cs = Some mp'
             \<and> anchors_in_bounds mp' (length (last_history h cs))))"
  using map_draft_in_bounds [of mp inp sampled] empty_cache_in_bounds [of mp 0]
    run_calls_in_bounds [of mp h cs]
  by blast

theorem draft_reads_in_bounds_witness:
  "anchors_in_bounds ex_map_after (length [9, 1, 2, 3, 4 :: int])
   \<and> common_ngram_map_draft ex_map_after [9, 1, 2, 3, 4, 5] 1
       = Some (ex_map_after\<lparr>idx_last_check := 6,
                 keys := [ex_key\<lparr>key_num := 2,
                    key_values := [\<lparr>value_idx = 2, value_num = 2, n_accepted = 1\<rparr>,
                                   new_value 1, new_value 1, new_value 1]\<rparr>]\<rparr>, [2])
   \<and> histories_grow [] [Draft [9, 1, 2, 3, 4] 1, Accept 1, Draft [9, 1, 2, 3, 4, 5] 1]
   \<and> run_calls ex_map [Draft [9, 1, 2, 3, 4] 1, Accept 1, Draft [9, 1, 2, 3, 4, 5] 1]
       = Some (ex_map_after\<lparr>idx_last_check := 6,
                 keys := [ex_key\<lparr>key_num := 2,
                    key_values := [\<lparr>value_idx = 2, value_num = 2, n_accepted = 1\<rparr>,
                                   new_value 1, new_value 1, new_value 1]\<rparr>]\<rparr>)"
proof -
  have n: "1 \<le> size_key ex_map_after" "1 \<le> size_key ex_map"
    by (simp_all add: ex_map_after_def ex_map_def)
  have inv: "anchors_in_bounds ex_map_after (length [9, 1, 2, 3, 4 :: int])"
    by (simp add: anchors_in_bounds_def slots_in_bounds_def ex_map_after_def ex_map_def
        ex_key_def new_value_def COMMON_NGRAM_MAX_VALUES_def)
  have inv': "anchors_in_bounds ex_map_after (length [9, 1, 2, 3, 4, 5 :: int])"
    by (simp add: anchors_in_bounds_def slots_in_bounds_def ex_map_after_def ex_map_def
        ex_key_def new_value_def COMMON_NGRAM_MAX_VALUES_def)
  have size: "length [9, 1, 2, 3, 4, 5 :: int] \<le> SIZE_MAX"
    by (simp add: SIZE_MAX_def)
  have e: "keys ex_map = [] \<and> \<not> last_draft_created ex_map"
    by (simp add: ex_map_def)
  have g: "histories_grow [] [Draft [9, 1, 2, 3, 4] 1, Accept 1, Draft [9, 1, 2, 3, 4, 5] 1]"
    by (simp add: SIZE_MAX_def)
  have d: "common_ngram_map_draft ex_map_after [9, 1, 2, 3, 4, 5] 1
       = Some (ex_map_after\<lparr>idx_last_check := 6,
                 keys := [ex_key\<lparr>key_num := 2,
                    key_values := [\<lparr>value_idx = 2, value_num = 2, n_accepted = 1\<rparr>,
                                   new_value 1, new_value 1, new_value 1]\<rparr>]\<rparr>, [2])"
    by (simp add: ex_map_after_def ex_map_def ex_key_def ev)
  have r: "run_calls ex_map [Draft [9, 1, 2, 3, 4] 1, Accept 1, Draft [9, 1, 2, 3, 4, 5] 1]
       = Some (ex_map_after\<lparr>idx_last_check := 6,
                 keys := [ex_key\<lparr>key_num := 2,
                    key_values := [\<lparr>value_idx = 2, value_num = 2, n_accepted = 1\<rparr>,
                                   new_value 1, new_value 1, new_value 1]\<rparr>]\<rparr>)"
    by (simp add: ex_map_after_def ex_map_def ex_key_def ev)
  show ?thesis
    using draft_reads_in_bounds [of ex_map_after "[9, 1, 2, 3, 4, 5]" 1 "[]"
        "[Draft [9, 1, 2, 3, 4] 1, Accept 1, Draft [9, 1, 2, 3, 4, 5] 1]"]
      draft_reads_in_bounds [of ex_map "[]" 1 "[]"
        "[Draft [9, 1, 2, 3, 4] 1, Accept 1, Draft [9, 1, 2, 3, 4, 5] 1]"]
      n inv inv' size e g d r
    by simp
qed

end
